theory Spec2Isabelle
  imports Main
begin

section \<open>Python strings\<close>

text \<open>
  A Python \<open>str\<close> is a sequence of Unicode code points and \<open>len\<close>, slicing and
  iteration count code points. A string is therefore a list of code points, each a
  natural number; \<open>ascii\<close> turns an ASCII literal into such a list.
\<close>

type_synonym pystr = "nat list"

definition ascii :: "string \<Rightarrow> pystr" where
  "ascii s = map of_char s"

text \<open>
  The Unicode character database is not part of the repository. Its three uses
  (\<open>str.isalnum\<close>, \<open>str.lower\<close> and the class \<open>\w\<close> of \<open>re\<close>) are
  written out for ASCII and taken from a table \<open>U\<close> beyond it, so that every result
  below holds for whatever the database says about the other code points.
\<close>

record unicode =
  uc_alnum :: "nat \<Rightarrow> bool"
  uc_lower :: "pystr \<Rightarrow> pystr"

definition ascii_alnum :: "nat \<Rightarrow> bool" where
  "ascii_alnum c = ((48 \<le> c \<and> c \<le> 57) \<or> (65 \<le> c \<and> c \<le> 90) \<or> (97 \<le> c \<and> c \<le> 122))"

definition isalnum :: "unicode \<Rightarrow> nat \<Rightarrow> bool" where
  "isalnum U c = (if c < 128 then ascii_alnum c else uc_alnum U c)"

definition ascii_lower :: "nat \<Rightarrow> nat" where
  "ascii_lower c = (if 65 \<le> c \<and> c \<le> 90 then c + 32 else c)"

definition lower :: "unicode \<Rightarrow> pystr \<Rightarrow> pystr" where
  "lower U s = (if list_all (\<lambda>c. c < 128) s then map ascii_lower s else uc_lower U s)"

text \<open>The class \<open>\w\<close> of a \<open>str\<close> pattern: alphanumeric, or the underscore.\<close>

definition word_char :: "unicode \<Rightarrow> nat \<Rightarrow> bool" where
  "word_char U c = (isalnum U c \<or> c = 95)"

text \<open>
  \<open>re.findall(r"\b\w+\b", s)\<close>: a match starts at a word boundary, \<open>\w+\<close> is greedy
  and a boundary follows the last word character of a run, so the matches are the
  maximal runs of word characters, left to right. \<open>cur\<close> is the run being read.
\<close>

fun findall_words :: "unicode \<Rightarrow> pystr \<Rightarrow> pystr \<Rightarrow> pystr list" where
  "findall_words U cur [] = (if cur = [] then [] else [cur])"
| "findall_words U cur (c # cs) =
     (if word_char U c then findall_words U (cur @ [c]) cs
      else if cur = [] then findall_words U [] cs
      else cur # findall_words U [] cs)"

text \<open>\<open>str(n)\<close> for an integer: decimal digits, with a minus sign when negative.\<close>

fun str_nat :: "nat \<Rightarrow> pystr" where
  "str_nat n = (if n < 10 then [48 + n] else str_nat (n div 10) @ [48 + n mod 10])"

declare str_nat.simps [simp del]

definition str_int :: "int \<Rightarrow> pystr" where
  "str_int i = (if i < 0 then 45 # str_nat (nat (- i)) else str_nat (nat i))"

section \<open>scraper.py and utils.py: file names\<close>

text \<open>
  \<open>safe_filename\<close> is defined twice, in scraper.py and in utils.py, with the same body:
  \<^verbatim>\<open>"".join(c if c.isalnum() or c in " -_." else "_" for c in name)[:100]\<close>
\<close>

definition safe_filename :: "unicode \<Rightarrow> pystr \<Rightarrow> pystr" where
  "safe_filename U name =
     take 100 (map (\<lambda>c. if isalnum U c \<or> c \<in> set (ascii '' -_.'') then c else of_char CHR ''_'') name)"

text \<open>
  Line 85 of scraper.py, \<^verbatim>\<open>f"{safe_filename(title)}_{get_timestamp()}.txt"\<close>, with the
  time stamp that \<open>get_timestamp\<close> read from the clock.
\<close>

definition filename_of :: "unicode \<Rightarrow> pystr \<Rightarrow> pystr \<Rightarrow> pystr" where
  "filename_of U title ts = safe_filename U title @ ascii ''_'' @ ts @ ascii ''.txt''"

text \<open>The file name without its extension \<open>.txt\<close> (its last four characters).\<close>

definition stem :: "pystr \<Rightarrow> pystr" where
  "stem f = take (length f - 4) f"

section \<open>ai\_utils.py: sentiment\<close>

definition positive_words :: "pystr set" where
  "positive_words = set (map ascii [''good'', ''great'', ''excellent'', ''positive'', ''happy'',
     ''success'', ''benefit''])"

definition negative_words :: "pystr set" where
  "negative_words = set (map ascii [''bad'', ''terrible'', ''sad'', ''negative'', ''failure'',
     ''harm'', ''angry''])"

fun score_words :: "int \<Rightarrow> pystr list \<Rightarrow> int" where
  "score_words score [] = score"
| "score_words score (w # ws) =
     (if w \<in> positive_words then score_words (score + 1) ws
      else if w \<in> negative_words then score_words (score - 1) ws
      else score_words score ws)"

definition sentiment_weight :: "unicode \<Rightarrow> pystr \<Rightarrow> int" where
  "sentiment_weight U text = score_words 0 (findall_words U [] (lower U text))"

definition mood_of :: "int \<Rightarrow> pystr" where
  "mood_of score =
     (if score > 3 then ascii ''Strongly Positive''
      else if score > 0 then ascii ''Positive''
      else if score = 0 then ascii ''Neutral''
      else if score > - 3 then ascii ''Negative''
      else ascii ''Strongly Negative'')"

definition sentiment_details :: "unicode \<Rightarrow> pystr \<Rightarrow> pystr" where
  "sentiment_details U text =
     (let score = sentiment_weight U text
      in mood_of score @ ascii '' (score '' @ str_int score @ ascii '')'')"

text \<open>
  A character table for the worked examples: it knows no alphanumeric character beyond
  ASCII and lowers nothing. The examples are ASCII, so they do not consult it.
\<close>

definition ascii_table :: unicode where
  "ascii_table = \<lparr>uc_alnum = (\<lambda>c. False), uc_lower = (\<lambda>s. s)\<rparr>"

section \<open>scraper.py: the world outside the program\<close>

text \<open>
  The browser, the clock, the file system, the image download with its OCR, the HTML
  parser, \<open>urljoin\<close> and the hash table behind a Python \<open>set\<close> are not code of the
  repository. They are the fields of an environment \<open>E\<close>. A call that reaches outside
  (render, clock, directory, file, image) reads its answer at the current \<open>clock\<close> of
  the world and advances it, so that two calls with the same argument may be answered
  differently: a page that rendered once may time out the next time.
  An answer \<open>Inl e\<close> is an exception with text \<open>e\<close>.
\<close>

datatype exn = OSError pystr | ValueError pystr

datatype msg =
    FetchFailed pystr pystr
  | OcrWarning pystr pystr
  | SavedTo pystr
  | CrawlLevel int int
  | LimitReached

record env =
  render :: "nat \<Rightarrow> pystr \<Rightarrow> pystr + pystr"
  now :: "nat \<Rightarrow> pystr"
  make_dirs :: "nat \<Rightarrow> pystr option"
  write_file :: "nat \<Rightarrow> pystr \<Rightarrow> pystr option"
  image_text :: "nat \<Rightarrow> pystr \<Rightarrow> pystr + pystr"
  soup_title :: "pystr \<Rightarrow> pystr option"
  soup_paragraphs :: "pystr \<Rightarrow> pystr list"
  soup_anchors :: "pystr \<Rightarrow> pystr list"
  soup_imgs :: "pystr \<Rightarrow> pystr list"
  urljoin :: "pystr \<Rightarrow> pystr \<Rightarrow> pystr + pystr"
  slot :: "pystr list \<Rightarrow> pystr \<Rightarrow> nat"
  chars :: unicode

text \<open>
  \<open>render\<close> is the whole \<open>try\<close> block of \<open>fetch_page_playwright\<close> (launch, goto with its
  60 s timeout, content); \<open>make_dirs\<close> and \<open>write_file\<close> answer \<open>Some e\<close> when
  \<open>os.makedirs\<close> and \<open>open\<close> raise \<open>OSError\<close>;
  \<open>image_text\<close> is \<open>requests.get\<close> followed by \<open>extract_text_from_image\<close>, which is
  \<open>Inl e\<close> only when the download fails, since the OCR helper catches its own errors;
  \<open>soup_title\<close> is the stripped text of the first \<open>title\<close> element, \<open>soup_paragraphs\<close>
  the stripped texts of the \<open>p\<close> elements, \<open>soup_anchors\<close> the \<open>href\<close> values of the
  \<open>a\<close> elements that have one and \<open>soup_imgs\<close> the \<open>src\<close> values of the \<open>img\<close>
  elements that have one, each in document order; \<open>urljoin\<close> answers \<open>Inl e\<close> when
  \<open>urllib.parse.urljoin\<close> raises \<open>ValueError\<close>, as it does on a malformed address.

  The world records what the program did to it: the messages sent to \<open>log_signal\<close>,
  the messages printed, the URLs handed to \<open>scrape_article\<close>, every call of the
  browser with what came back (the markup, or \<open>None\<close>) and the files written (the URL
  of the page, the path, the text).
\<close>

record world =
  clock :: nat
  emitted :: "msg list"
  printed :: "msg list"
  dir_exists :: bool
  scraped :: "pystr list"
  rendered :: "(pystr \<times> pystr option) list"
  written :: "(pystr \<times> pystr \<times> pystr) list"

definition world0 :: world where
  "world0 = \<lparr>clock = 0, emitted = [], printed = [], dir_exists = False, scraped = [],
     rendered = [], written = []\<rparr>"

definition tick :: "world \<Rightarrow> world" where
  "tick w = w\<lparr>clock := Suc (clock w)\<rparr>"

text \<open>\<^verbatim>\<open>log_signal.emit(m) if log_signal else print(m)\<close>\<close>

definition report :: "bool \<Rightarrow> msg \<Rightarrow> world \<Rightarrow> world" where
  "report sig m w = (if sig then w\<lparr>emitted := emitted w @ [m]\<rparr> else w\<lparr>printed := printed w @ [m]\<rparr>)"

text \<open>\<^verbatim>\<open>if log_signal: log_signal.emit(m)\<close>\<close>

definition emit_if :: "bool \<Rightarrow> msg \<Rightarrow> world \<Rightarrow> world" where
  "emit_if sig m w = (if sig then w\<lparr>emitted := emitted w @ [m]\<rparr> else w)"

definition SAVE_DIR :: pystr where
  "SAVE_DIR = ascii ''scraped_txt''"

definition nl :: pystr where
  "nl = [10]"

fun join :: "pystr \<Rightarrow> pystr list \<Rightarrow> pystr" where
  "join sep [] = []"
| "join sep [x] = x"
| "join sep (x # y # ys) = x @ sep @ join sep (y # ys)"

definition startswith :: "pystr \<Rightarrow> pystr \<Rightarrow> bool" where
  "startswith s p = (take (length p) s = p)"

text \<open>\<open>not x\<close> for a value that is \<open>None\<close> or a string: both \<open>None\<close> and \<open>""\<close> are false.\<close>

definition truthy :: "pystr option \<Rightarrow> bool" where
  "truthy x = (case x of None \<Rightarrow> False | Some s \<Rightarrow> s \<noteq> [])"

subsection \<open>Sets of strings\<close>

text \<open>
  A Python \<open>set\<close> is a hash table. \<open>add\<close> does nothing when the element is there, and
  iteration walks the slots of the table, so the order of \<open>list(s)\<close> depends on the
  hashes of the elements and on the order in which they were added, not only on the
  elements. A set is therefore kept as its elements in the order of their first \<open>add\<close>,
  and \<open>slot E s x\<close> is the slot that the table built in this way has given to \<open>x\<close>.
\<close>

type_synonym pyset = "pystr list"

definition set_add :: "pystr \<Rightarrow> pyset \<Rightarrow> pyset" where
  "set_add x s = (if x \<in> set s then s else s @ [x])"

definition list_of_set :: "env \<Rightarrow> pyset \<Rightarrow> pystr list" where
  "list_of_set E s = sort_key (slot E s) s"

section \<open>scraper.py: rendering, link extraction, one page\<close>

definition fetch_page_playwright :: "env \<Rightarrow> pystr \<Rightarrow> bool \<Rightarrow> world \<Rightarrow> pystr option \<times> world" where
  "fetch_page_playwright E url sig w =
     (case render E (clock w) url of
        Inr html \<Rightarrow> (Some html, (tick w)\<lparr>rendered := rendered w @ [(url, Some html)]\<rparr>)
      | Inl e \<Rightarrow>
          (None, report sig (FetchFailed url e) ((tick w)\<lparr>rendered := rendered w @ [(url, None)]\<rparr>)))"

text \<open>
  The loop of \<open>extract_links\<close> over the anchors. Nothing catches the \<open>ValueError\<close> of
  \<open>urljoin\<close>: it leaves \<open>extract_links\<close> and, through \<open>run_scraper\<close>, the crawl.
\<close>

fun collect_links :: "env \<Rightarrow> pystr \<Rightarrow> pystr list \<Rightarrow> pyset \<Rightarrow> exn + pyset" where
  "collect_links E base_url [] links = Inr links"
| "collect_links E base_url (href # as) links =
     (case urljoin E base_url href of
        Inl e \<Rightarrow> Inl (ValueError e)
      | Inr url \<Rightarrow>
          collect_links E base_url as
            (if startswith url (ascii ''http'') then set_add url links else links))"

definition extract_links :: "env \<Rightarrow> pystr \<Rightarrow> pystr \<Rightarrow> exn + pyset" where
  "extract_links E base_url soup = collect_links E base_url (soup_anchors E soup) []"

text \<open>
  The loop over the images. \<open>urljoin\<close> stands before the \<open>try\<close>, so its \<open>ValueError\<close>
  leaves \<open>scrape_article\<close>; a failed download is caught and reported.
\<close>

fun ocr_loop :: "env \<Rightarrow> pystr \<Rightarrow> bool \<Rightarrow> pystr list \<Rightarrow> pystr list \<Rightarrow> world
    \<Rightarrow> (exn + pystr list) \<times> world" where
  "ocr_loop E url sig [] img_texts w = (Inr img_texts, w)"
| "ocr_loop E url sig (s # rest) img_texts w =
     (case urljoin E url s of
        Inl e \<Rightarrow> (Inl (ValueError e), w)
      | Inr src \<Rightarrow>
          (case image_text E (clock w) src of
             Inr img_text \<Rightarrow>
               ocr_loop E url sig rest
                 (if img_text \<noteq> [] then
                    img_texts @ [ascii ''Image text from '' @ src @ ascii '':'' @ nl @ img_text @ nl]
                  else img_texts)
                 (tick w)
           | Inl e \<Rightarrow> ocr_loop E url sig rest img_texts (report sig (OcrWarning src e) (tick w))))"

text \<open>
  Lines 73 and 74: \<^verbatim>\<open>if not os.path.exists(SAVE_DIR): os.makedirs(SAVE_DIR)\<close>.
  The answer is the exception, if there is one.
\<close>

definition ensure_dir :: "env \<Rightarrow> world \<Rightarrow> exn option \<times> world" where
  "ensure_dir E w =
     (if dir_exists w then (None, w)
      else case make_dirs E (clock w) of
             Some e \<Rightarrow> (Some (OSError e), tick w)
           | None \<Rightarrow> (None, (tick w)\<lparr>dir_exists := True\<rparr>))"

text \<open>
  \<open>scrape_article\<close> returns \<open>Inr None\<close> for \<open>None\<close>, \<open>Inr (Some filepath)\<close> for the path
  and \<open>Inl e\<close> when \<open>os.makedirs\<close>, \<open>urljoin\<close> or \<open>open\<close> raises, which nothing in the
  file catches. \<open>keywords\<close> is accepted and never read. \<open>os.path.join\<close> is the POSIX
  one; the file name never starts with a slash.
\<close>

definition scrape_article ::
  "env \<Rightarrow> pystr \<Rightarrow> pystr list option \<Rightarrow> bool \<Rightarrow> bool \<Rightarrow> world \<Rightarrow> (exn + pystr option) \<times> world" where
  "scrape_article E url keywords ocr_images sig w0 =
     (case ensure_dir E (w0\<lparr>scraped := scraped w0 @ [url]\<rparr>) of
        (Some e, w1) \<Rightarrow> (Inl e, w1)
      | (None, w1) \<Rightarrow>
          (let (html, w2) = fetch_page_playwright E url sig w1
           in if \<not> truthy html then (Inr None, w2)
              else
                (let soup = (case html of Some h \<Rightarrow> h | None \<Rightarrow> []);
                     title = (case soup_title E soup of Some t \<Rightarrow> t | None \<Rightarrow> ascii ''untitled'');
                     filename = filename_of (chars E) title (now E (clock w2));
                     w3 = tick w2;
                     filepath = SAVE_DIR @ ascii ''/'' @ filename;
                     text_content = join nl (filter (\<lambda>p. p \<noteq> []) (soup_paragraphs E soup));
                     result_text = ascii ''Title: '' @ title @ nl @ ascii ''URL: '' @ url @ nl
                       @ ascii ''Timestamp: '' @ now E (clock w3) @ nl @ nl
                       @ ascii ''ARTICLE TEXT:'' @ nl @ text_content @ nl @ nl;
                     w4 = tick w3
                 in case (if ocr_images then ocr_loop E url sig (soup_imgs E soup) [] w4
                          else (Inr [], w4)) of
                      (Inl e, w5) \<Rightarrow> (Inl e, w5)
                    | (Inr img_texts, w5) \<Rightarrow>
                        (let result_text2 =
                               (if img_texts \<noteq> []
                                then result_text @ ascii ''IMAGE TEXTS:'' @ nl @ join nl img_texts
                                else result_text)
                         in case write_file E (clock w5) filepath of
                              Some e \<Rightarrow> (Inl (OSError e), tick w5)
                            | None \<Rightarrow>
                                (Inr (Some filepath),
                                 report sig (SavedTo filepath)
                                   ((tick w5)\<lparr>written := written w5 @ [(url, filepath, result_text2)]\<rparr>))))))"

section \<open>scraper.py: the crawl\<close>

text \<open>The local variables of \<open>run_scraper\<close>; \<open>visited\<close> is only ever asked for membership.\<close>

record crawl =
  visited :: "pystr set"
  to_visit :: "pystr list"
  total_files :: int
  next_links :: "pystr list"

datatype outcome = Raised exn | Returned int | Finished

text \<open>
  The body of the loop \<open>for url in to_visit\<close>, lines 142 to 166. It ends with
  \<open>Finished\<close> at a \<open>continue\<close> and at its last line, with \<open>Returned n\<close> at the \<open>return\<close>
  of the safety limit and with \<open>Raised e\<close> when \<open>scrape_article\<close> or \<open>extract_links\<close>
  raises.
\<close>

definition url_body :: "env \<Rightarrow> bool \<Rightarrow> bool \<Rightarrow> pystr list option \<Rightarrow> pystr \<Rightarrow> crawl \<Rightarrow> world
    \<Rightarrow> outcome \<times> crawl \<times> world" where
  "url_body E ocr sig kw url c w =
     (if url \<in> visited c then (Finished, c, w)
      else
        (let c1 = c\<lparr>visited := insert url (visited c)\<rparr>
         in case scrape_article E url kw ocr sig w of
              (Inl e, w1) \<Rightarrow> (Raised e, c1, w1)
            | (Inr saved_file, w1) \<Rightarrow>
                (let c2 = (if truthy saved_file then c1\<lparr>total_files := total_files c1 + 1\<rparr> else c1);
                     (html, w2) = fetch_page_playwright E url sig w1
                 in if \<not> truthy html then (Finished, c2, w2)
                    else
                      (let soup = (case html of Some h \<Rightarrow> h | None \<Rightarrow> [])
                       in case extract_links E url soup of
                            Inl e \<Rightarrow> (Raised e, c2, w2)
                          | Inr links \<Rightarrow>
                              (let c3 = c2\<lparr>next_links := next_links c2 @ list_of_set E links\<rparr>
                               in if total_files c3 \<ge> 50
                                  then (Returned (total_files c3), c3, emit_if sig LimitReached w2)
                                  else (Finished, c3, w2))))))"

text \<open>The loop \<open>for url in to_visit\<close>, over the URLs still to come.\<close>

fun url_loop :: "env \<Rightarrow> bool \<Rightarrow> bool \<Rightarrow> pystr list option \<Rightarrow> pystr list \<Rightarrow> crawl \<Rightarrow> world
    \<Rightarrow> outcome \<times> crawl \<times> world" where
  "url_loop E ocr sig kw [] c w = (Finished, c, w)"
| "url_loop E ocr sig kw (url # rest) c w =
     (case url_body E ocr sig kw url c w of
        (Finished, c', w') \<Rightarrow> url_loop E ocr sig kw rest c' w'
      | (out, c', w') \<Rightarrow> (out, c', w'))"

text \<open>The loop \<open>for level in range(depth)\<close>, over the levels still to come.\<close>

fun level_loop :: "env \<Rightarrow> bool \<Rightarrow> bool \<Rightarrow> pystr list option \<Rightarrow> int \<Rightarrow> int list \<Rightarrow> crawl \<Rightarrow> world
    \<Rightarrow> (exn + int) \<times> crawl \<times> world" where
  "level_loop E ocr sig kw depth [] c w = (Inr (total_files c), c, w)"
| "level_loop E ocr sig kw depth (level # levels) c w =
     (let w1 = emit_if sig (CrawlLevel (level + 1) depth) w;
          c1 = c\<lparr>next_links := []\<rparr>
      in case url_loop E ocr sig kw (to_visit c1) c1 w1 of
           (Raised e, c2, w2) \<Rightarrow> (Inl e, c2, w2)
         | (Returned n, c2, w2) \<Rightarrow> (Inr n, c2, w2)
         | (Finished, c2, w2) \<Rightarrow>
             level_loop E ocr sig kw depth levels (c2\<lparr>to_visit := next_links c2\<rparr>) w2)"

definition run_scraper ::
  "env \<Rightarrow> pystr \<Rightarrow> pystr list option \<Rightarrow> int \<Rightarrow> bool \<Rightarrow> bool \<Rightarrow> world \<Rightarrow> (exn + int) \<times> crawl \<times> world" where
  "run_scraper E start_url keywords depth ocr_images sig w =
     level_loop E ocr_images sig keywords depth [0..depth - 1]
       \<lparr>visited = {}, to_visit = [start_url], total_files = 0, next_links = []\<rparr> w"

subsection \<open>The loops, one step of their iterators at a time\<close>

text \<open>
  A \<open>for\<close> statement asks its iterator for the next element until there is none. The
  iterator of a list holds an index and compares it with the length the list has at
  that moment; the one of \<open>range(depth)\<close> counts up to \<open>depth\<close>. Written in this way
  the two loops are not recursions over a list, and whether they end is a question:
  the answer \<open>None\<close> stands for a loop that never ends.
\<close>

partial_function (option) url_iter :: "env \<Rightarrow> bool \<Rightarrow> bool \<Rightarrow> pystr list option \<Rightarrow> nat \<Rightarrow> crawl \<Rightarrow> world
    \<Rightarrow> (outcome \<times> crawl \<times> world) option" where
  "url_iter E ocr sig kw i c w =
     (if i < length (to_visit c) then
        (case url_body E ocr sig kw (to_visit c ! i) c w of
           (Finished, c', w') \<Rightarrow> url_iter E ocr sig kw (Suc i) c' w'
         | (out, c', w') \<Rightarrow> Some (out, c', w'))
      else Some (Finished, c, w))"

partial_function (option) level_iter :: "env \<Rightarrow> bool \<Rightarrow> bool \<Rightarrow> pystr list option \<Rightarrow> int \<Rightarrow> int \<Rightarrow> crawl \<Rightarrow> world
    \<Rightarrow> ((exn + int) \<times> crawl \<times> world) option" where
  "level_iter E ocr sig kw depth level c w =
     (if level < depth then
        (let w1 = emit_if sig (CrawlLevel (level + 1) depth) w;
             c1 = c\<lparr>next_links := []\<rparr>
         in case url_iter E ocr sig kw 0 c1 w1 of
              None \<Rightarrow> None
            | Some (Raised e, c2, w2) \<Rightarrow> Some (Inl e, c2, w2)
            | Some (Returned n, c2, w2) \<Rightarrow> Some (Inr n, c2, w2)
            | Some (Finished, c2, w2) \<Rightarrow>
                level_iter E ocr sig kw depth (level + 1) (c2\<lparr>to_visit := next_links c2\<rparr>) w2)
      else Some (Inr (total_files c), c, w))"

definition run_scraper_iter ::
  "env \<Rightarrow> pystr \<Rightarrow> pystr list option \<Rightarrow> int \<Rightarrow> bool \<Rightarrow> bool \<Rightarrow> world
    \<Rightarrow> ((exn + int) \<times> crawl \<times> world) option" where
  "run_scraper_iter E start_url keywords depth ocr_images sig w =
     level_iter E ocr_images sig keywords depth 0
       \<lparr>visited = {}, to_visit = [start_url], total_files = 0, next_links = []\<rparr> w"

section \<open>Traces of a crawl\<close>

text \<open>The messages \<open>[INFO] Crawl Level k/depth\<close> that open a level.\<close>

fun is_level :: "msg \<Rightarrow> bool" where
  "is_level (CrawlLevel l d) = True"
| "is_level m = False"

text \<open>
  What holds between the local variables of \<open>run_scraper\<close> and the world at every
  point of a crawl: no URL was handed to \<open>scrape_article\<close> twice, every such URL is in
  \<open>visited\<close>, no URL has two files, a file belongs to a URL that was scraped, and
  \<open>total_files\<close> counts the files.
\<close>

definition traces_ok :: "crawl \<Rightarrow> world \<Rightarrow> bool" where
  "traces_ok c w = (distinct (scraped w) \<and> set (scraped w) \<subseteq> visited c
     \<and> distinct (map fst (written w)) \<and> fst ` set (written w) \<subseteq> set (scraped w)
     \<and> total_files c = int (length (written w)))"

text \<open>
  An environment in which nothing outside the renderer raises: the directory can be
  made, every file can be written and every address resolves.
\<close>

definition reliable :: "env \<Rightarrow> bool" where
  "reliable E = ((\<forall>n. make_dirs E n = None) \<and> (\<forall>n p. write_file E n p = None)
     \<and> (\<forall>b h. \<exists>u. urljoin E b h = Inr u))"

text \<open>The calls of the browser between an earlier world and a later one.\<close>

definition since :: "world \<Rightarrow> world \<Rightarrow> (pystr \<times> pystr option) list" where
  "since w w' = drop (length (rendered w)) (rendered w')"

text \<open>Every second element of a list: of the two renders of each URL, the one for the links.\<close>

fun seconds :: "'a list \<Rightarrow> 'a list" where
  "seconds (x # y # zs) = y # seconds zs"
| "seconds zs = []"

text \<open>
  The URLs of a frontier that the loop does not pass over: those that are not in
  \<open>visited\<close>, each at its first place in the frontier.
\<close>

fun fresh :: "pystr list \<Rightarrow> pystr set \<Rightarrow> pystr list" where
  "fresh [] V = []"
| "fresh (u # us) V = (if u \<in> V then fresh us V else u # fresh us (insert u V))"

text \<open>
  What the render of a URL for its links adds to the frontier: nothing when there is
  no markup, else \<open>list(links)\<close> for the set that \<open>extract_links\<close> returns.
\<close>

definition group :: "env \<Rightarrow> pystr \<times> pystr option \<Rightarrow> pystr list" where
  "group E p =
     (case p of
        (u, None) \<Rightarrow> []
      | (u, Some h) \<Rightarrow>
          (if h = [] then []
           else case extract_links E u h of Inl e \<Rightarrow> [] | Inr links \<Rightarrow> list_of_set E links))"

text \<open>
  The links of a page in the order of the document: the \<open>href\<close> of every anchor,
  resolved against the URL of the page, kept when it starts with \<open>http\<close>. This is the
  order the spec calls discovery order.
\<close>

fun resolve_hrefs :: "env \<Rightarrow> pystr \<Rightarrow> pystr list \<Rightarrow> exn + pystr list" where
  "resolve_hrefs E base_url [] = Inr []"
| "resolve_hrefs E base_url (href # hs) =
     (case urljoin E base_url href of
        Inl e \<Rightarrow> Inl (ValueError e)
      | Inr url \<Rightarrow>
          (case resolve_hrefs E base_url hs of
             Inl e \<Rightarrow> Inl e
           | Inr urls \<Rightarrow> Inr (url # urls)))"

definition document_links :: "env \<Rightarrow> pystr \<Rightarrow> pystr \<Rightarrow> exn + pystr list" where
  "document_links E base_url soup =
     (case resolve_hrefs E base_url (soup_anchors E soup) of
        Inl e \<Rightarrow> Inl e
      | Inr urls \<Rightarrow> Inr (filter (\<lambda>url. startswith url (ascii ''http'')) urls))"

text \<open>
  \<open>reached E R start k u\<close>: the URL \<open>u\<close> lies \<open>k\<close> links from \<open>start\<close>, each link one
  that \<open>extract_links\<close> finds in the markup of the page before it, as one of the
  renders \<open>R\<close> gave it.
\<close>

inductive reached :: "env \<Rightarrow> (pystr \<times> pystr option) list \<Rightarrow> pystr \<Rightarrow> nat \<Rightarrow> pystr \<Rightarrow> bool"
  for E :: env and R :: "(pystr \<times> pystr option) list" and start :: pystr where
  reached_start: "reached E R start 0 start"
| reached_link: "reached E R start k u \<Longrightarrow> (u, Some h) \<in> set R \<Longrightarrow> extract_links E u h = Inr s
     \<Longrightarrow> v \<in> set s \<Longrightarrow> reached E R start (Suc k) v"

code_pred reached .

section \<open>Worked examples\<close>

text \<open>
  A site of three pages. The page at \<open>http://a\<close> renders and links to \<open>http://c\<close> and
  to \<open>http://b\<close>, in that order; the page at \<open>http://c\<close> renders and links to
  \<open>http://a\<close> and to \<open>http://b\<close>; the page at \<open>http://b\<close> always times out. The hash
  table keeps \<open>http://a\<close> before \<open>http://b\<close> and \<open>http://b\<close> before \<open>http://c\<close>.
\<close>

definition url_a :: pystr where
  "url_a = ascii ''http://a''"

definition url_b :: pystr where
  "url_b = ascii ''http://b''"

definition url_c :: pystr where
  "url_c = ascii ''http://c''"

definition demo_env :: env where
  "demo_env = \<lparr>
     render = (\<lambda>n u. if u = url_a then Inr (ascii ''A'')
                     else if u = url_c then Inr (ascii ''C'')
                     else Inl (ascii ''timeout'')),
     now = (\<lambda>n. ascii ''2024-01-01_00-00-00''),
     make_dirs = (\<lambda>n. None),
     write_file = (\<lambda>n p. None),
     image_text = (\<lambda>n u. Inr []),
     soup_title = (\<lambda>h. Some (ascii ''Home'')),
     soup_paragraphs = (\<lambda>h. [ascii ''text'']),
     soup_anchors = (\<lambda>h. if h = ascii ''A'' then [url_c, url_b] else [url_a, url_b]),
     soup_imgs = (\<lambda>h. []),
     urljoin = (\<lambda>base href. Inr href),
     slot = (\<lambda>s u. if u = url_a then 0 else if u = url_b then 1 else 2),
     chars = ascii_table\<rparr>"



text \<open>
  A site on a flaky network. The hub page at \<open>http://h/\<close> always renders and links
  to fifty leaf pages, \<open>http://h/a\<close> to \<open>http://h/z\<close> and \<open>http://h/A\<close> to \<open>http://h/X\<close>.
  A leaf page renders at one call to the outside world in five and times out at the
  others. Without OCR a page that is saved costs five such calls: the render of
  \<open>scrape_article\<close>, two time stamps, the write, and the render for the links.
\<close>

definition hub_url :: pystr where
  "hub_url = ascii ''http://h/''"

definition leaf_urls :: "pystr list" where
  "leaf_urls = map (\<lambda>k. ascii ''http://h/'' @ [k]) ([97..<123] @ [65..<89])"

definition flaky_env :: env where
  "flaky_env = \<lparr>
     render = (\<lambda>n u. if u = hub_url then Inr (ascii ''hub'')
                     else if n mod 5 = 1 then Inr (ascii ''leaf'')
                     else Inl (ascii ''timeout'')),
     now = (\<lambda>n. ascii ''2024-01-01_00-00-00''),
     make_dirs = (\<lambda>n. None),
     write_file = (\<lambda>n p. None),
     image_text = (\<lambda>n u. Inr []),
     soup_title = (\<lambda>h. Some h),
     soup_paragraphs = (\<lambda>h. []),
     soup_anchors = (\<lambda>h. if h = ascii ''hub'' then leaf_urls else []),
     soup_imgs = (\<lambda>h. []),
     urljoin = (\<lambda>base href. Inr href),
     slot = (\<lambda>s u. 0),
     chars = ascii_table\<rparr>"

definition crawl0 :: "pystr \<Rightarrow> crawl" where
  "crawl0 start_url = \<lparr>visited = {}, to_visit = [start_url], total_files = 0, next_links = []\<rparr>"

text \<open>
  A level of a crawl of the site of three pages whose frontier holds all three, and
  the run of the loop over it.
\<close>

definition demo_frontier :: crawl where
  "demo_frontier = \<lparr>visited = {}, to_visit = [url_c, url_b, url_a], total_files = 0, next_links = []\<rparr>"

definition demo_level :: "outcome \<times> crawl \<times> world" where
  "demo_level = url_loop demo_env False False None (to_visit demo_frontier)
     (demo_frontier\<lparr>next_links := []\<rparr>) (emit_if False (CrawlLevel (0 + 1) 1) world0)"

section \<open>Results: file names\<close>

lemmas char_defs = ascii_def isalnum_def ascii_alnum_def

lemma stem_append: "length e = 4 \<Longrightarrow> stem (b @ e) = b"
  by (simp add: stem_def)

text \<open>
  C2. The spec gives \<open>Hello, World! _Test_\<close> as the file name base of the title
  \<open>Hello, World! <Test>\<close>. The comma and the exclamation mark are neither alphanumeric
  nor among space, \<open>-\<close>, \<open>_\<close> and \<open>.\<close>, so \<open>safe_filename\<close> replaces them too: the base is
  \<open>Hello_ World_ _Test_\<close>, and the file name is that base, an underscore, the time
  stamp and \<open>.txt\<close>.
\<close>

theorem hello_world_filename:
  "safe_filename U (ascii ''Hello, World! <Test>'') = ascii ''Hello_ World_ _Test_''
   \<and> filename_of U (ascii ''Hello, World! <Test>'') ts
       = ascii ''Hello_ World_ _Test_'' @ ascii ''_'' @ ts @ ascii ''.txt''"
  by (simp add: filename_of_def safe_filename_def char_defs)

text \<open>C2 as the spec states it: the base would keep the comma. It does not.\<close>

theorem hello_world_comma_not_kept:
  "safe_filename ascii_table (ascii ''Hello, World! <Test>'') \<noteq> ascii ''Hello, World! _Test_''"
  by (simp add: safe_filename_def char_defs)

text \<open>
  C7. For every input string the result of \<open>safe_filename\<close> has at most 100 characters
  (the first 100 positions of the input), every character of it is alphanumeric or one
  of space, \<open>-\<close>, \<open>_\<close>, \<open>.\<close>, and position by position it is the input character when that
  one is allowed and an underscore otherwise.
\<close>

theorem safe_filename_allowed:
  "length (safe_filename U name) \<le> 100
   \<and> length (safe_filename U name) = min 100 (length name)
   \<and> (\<forall>c \<in> set (safe_filename U name). isalnum U c \<or> c \<in> set (ascii '' -_.''))
   \<and> (\<forall>i < length (safe_filename U name).
         safe_filename U name ! i =
           (if isalnum U (name ! i) \<or> name ! i \<in> set (ascii '' -_.'') then name ! i
            else of_char CHR ''_''))"
proof -
  let ?f = "\<lambda>c. if isalnum U c \<or> c \<in> set (ascii '' -_.'') then c else of_char CHR ''_''"
  have keep: "isalnum U (?f c) \<or> ?f c \<in> set (ascii '' -_.'')" for c
    by (simp add: ascii_def)
  have len: "length (safe_filename U name) = min 100 (length name)"
    by (simp add: safe_filename_def min.commute)
  have allowed: "\<forall>c \<in> set (safe_filename U name). isalnum U c \<or> c \<in> set (ascii '' -_.'')"
  proof
    fix c assume "c \<in> set (safe_filename U name)"
    then have "c \<in> set (map ?f name)"
      unfolding safe_filename_def by (rule in_set_takeD)
    then obtain d where "c = ?f d" unfolding set_map by blast
    with keep [of d] show "isalnum U c \<or> c \<in> set (ascii '' -_.'')" by simp
  qed
  have nth: "\<forall>i < length (safe_filename U name). safe_filename U name ! i = ?f (name ! i)"
    by (simp add: safe_filename_def)
  from len allowed nth show ?thesis by simp
qed

theorem safe_filename_allowed_witness:
  "safe_filename ascii_table (ascii ''a/b'') = ascii ''a_b''
   \<and> length (safe_filename ascii_table (ascii ''a/b'')) = min 100 (length (ascii ''a/b''))
   \<and> of_char CHR ''_'' \<in> set (safe_filename ascii_table (ascii ''a/b''))
   \<and> (isalnum ascii_table (of_char CHR ''_'') \<or> of_char CHR ''_'' \<in> set (ascii '' -_.''))
   \<and> 1 < length (safe_filename ascii_table (ascii ''a/b''))
   \<and> safe_filename ascii_table (ascii ''a/b'') ! 1 = of_char CHR ''_''"
proof -
  have v: "safe_filename ascii_table (ascii ''a/b'') = ascii ''a_b''"
    by (simp add: safe_filename_def char_defs)
  have m: "of_char CHR ''_'' \<in> set (safe_filename ascii_table (ascii ''a/b''))"
    unfolding v by (simp add: ascii_def)
  have l: "1 < length (safe_filename ascii_table (ascii ''a/b''))"
    unfolding v by (simp add: ascii_def)
  have n: "\<not> isalnum ascii_table (ascii ''a/b'' ! 1) \<and> ascii ''a/b'' ! 1 \<notin> set (ascii '' -_.'')"
    by (simp add: char_defs)
  from safe_filename_allowed [of ascii_table "ascii ''a/b''"] m l n v show ?thesis
    by auto
qed

text \<open>
  C4. The file name is the sanitized title, cut to 100 characters, then an underscore,
  the time stamp and \<open>.txt\<close>. The bound of 100 holds for the title part only: the part
  of the file name before the extension has \<open>min 100 (length title) + 1 + length ts\<close>
  characters, the time stamp and its underscore coming on top of the title.
\<close>

theorem filename_length:
  "filename_of U title ts = safe_filename U title @ ascii ''_'' @ ts @ ascii ''.txt''
   \<and> length (safe_filename U title) \<le> 100
   \<and> stem (filename_of U title ts) = safe_filename U title @ ascii ''_'' @ ts
   \<and> length (stem (filename_of U title ts)) = min 100 (length title) + 1 + length ts"
proof -
  have e: "length (ascii ''.txt'') = 4" by (simp add: ascii_def)
  have f: "filename_of U title ts = (safe_filename U title @ ascii ''_'' @ ts) @ ascii ''.txt''"
    by (simp add: filename_of_def)
  have s: "stem (filename_of U title ts) = safe_filename U title @ ascii ''_'' @ ts"
    unfolding f by (rule stem_append [OF e])
  have l: "length (safe_filename U title) = min 100 (length title)"
    by (simp add: safe_filename_def min.commute)
  have u: "length (ascii ''_'') = 1" by (simp add: ascii_def)
  show ?thesis using s l u by (simp add: filename_of_def)
qed

text \<open>
  C4 as the spec states it: at most 100 characters before the extension. A title of
  100 letters and a time stamp of the usual 19 characters give 120.
\<close>

theorem filename_stem_exceeds_100:
  "\<not> length (stem (filename_of ascii_table (replicate 100 (of_char CHR ''a''))
        (ascii ''2024-01-01_00-00-00''))) \<le> 100"
  by (simp add: filename_of_def stem_def safe_filename_def ascii_def)

section \<open>Results: sentiment\<close>

lemma mood_of_3: "mood_of 3 = ascii ''Positive''"
  by (simp add: mood_of_def)

lemma mood_of_minus_3: "mood_of (- 3) = ascii ''Strongly Negative''"
  by (simp add: mood_of_def)

lemma str_int_3: "str_int 3 = ascii ''3''"
  by (simp add: str_int_def str_nat.simps ascii_def)

lemma str_int_minus_3: "str_int (- 3) = ascii ''-3''"
  by (simp add: str_int_def str_nat.simps ascii_def)

lemmas weight_defs = sentiment_weight_def lower_def ascii_def ascii_lower_def word_char_def
  isalnum_def ascii_alnum_def positive_words_def negative_words_def

lemma example_score: "sentiment_weight U (ascii ''This is a great and excellent success'') = 3"
  by (simp add: weight_defs)

lemma details_at_3:
  "sentiment_weight U t = 3 \<Longrightarrow> sentiment_details U t = ascii ''Positive (score 3)''"
  by (simp add: sentiment_details_def mood_of_3 str_int_3) (simp add: ascii_def)

lemma details_at_minus_3:
  "sentiment_weight U t = - 3 \<Longrightarrow> sentiment_details U t = ascii ''Strongly Negative (score -3)''"
  by (simp add: sentiment_details_def mood_of_minus_3 str_int_minus_3) (simp add: ascii_def)

text \<open>
  C9. With the lexicons of ai\_utils.py the text \<open>This is a great and excellent success\<close>
  has score 3 and \<open>sentiment_details\<close> answers \<open>Positive (score 3)\<close>. Every text of
  score 3 gets that answer and not the one of \<open>Strongly Positive\<close>, which is the mood
  of exactly the scores above 3.
\<close>

theorem score_3_is_positive:
  "sentiment_weight U (ascii ''This is a great and excellent success'') = 3
   \<and> sentiment_details U (ascii ''This is a great and excellent success'') = ascii ''Positive (score 3)''
   \<and> (sentiment_weight U t = 3 \<longrightarrow>
        sentiment_details U t = ascii ''Positive (score 3)''
        \<and> sentiment_details U t \<noteq> ascii ''Strongly Positive (score 3)'')
   \<and> (mood_of s = ascii ''Strongly Positive'' \<longleftrightarrow> s > 3)"
proof -
  have ne: "ascii ''Positive (score 3)'' \<noteq> ascii ''Strongly Positive (score 3)''"
    by (simp add: ascii_def)
  have m: "mood_of s = ascii ''Strongly Positive'' \<longleftrightarrow> s > 3"
    by (simp add: mood_of_def ascii_def)
  show ?thesis
    using details_at_3 [OF example_score] details_at_3 [of U t] ne m example_score by simp
qed

theorem score_3_is_positive_witness:
  "sentiment_weight ascii_table (ascii ''good, good, good'') = 3
   \<and> sentiment_details ascii_table (ascii ''good, good, good'') = ascii ''Positive (score 3)''
   \<and> sentiment_details ascii_table (ascii ''good, good, good'') \<noteq> ascii ''Strongly Positive (score 3)''"
proof -
  have s: "sentiment_weight ascii_table (ascii ''good, good, good'') = 3"
    by (simp add: weight_defs)
  show ?thesis
    using s score_3_is_positive [of ascii_table "ascii ''good, good, good''" 0] by blast
qed

text \<open>
  C10. The two boundaries are not mirror images. Every text of score 3 is \<open>Positive\<close>,
  every text of score -3 is \<open>Strongly Negative\<close>: \<open>Negative\<close> is the mood of the scores
  strictly between -3 and 0, \<open>Positive\<close> that of the scores from 1 to 3, 3 included.
\<close>

theorem boundaries_asymmetric:
  "(sentiment_weight U t = 3 \<longrightarrow> sentiment_details U t = ascii ''Positive (score 3)'')
   \<and> (sentiment_weight U t = - 3 \<longrightarrow> sentiment_details U t = ascii ''Strongly Negative (score -3)'')
   \<and> (mood_of s = ascii ''Negative'' \<longleftrightarrow> - 3 < s \<and> s < 0)
   \<and> (mood_of s = ascii ''Positive'' \<longleftrightarrow> 0 < s \<and> s \<le> 3)"
proof -
  have a: "mood_of s = ascii ''Negative'' \<longleftrightarrow> - 3 < s \<and> s < 0"
    by (simp add: mood_of_def ascii_def)
  have b: "mood_of s = ascii ''Positive'' \<longleftrightarrow> 0 < s \<and> s \<le> 3"
    by (simp add: mood_of_def ascii_def)
  from details_at_3 [of U t] details_at_minus_3 [of U t] a b show ?thesis by blast
qed

theorem boundaries_asymmetric_witness:
  "sentiment_weight ascii_table (ascii ''great great great'') = 3
   \<and> sentiment_details ascii_table (ascii ''great great great'') = ascii ''Positive (score 3)''
   \<and> sentiment_weight ascii_table (ascii ''Bad. Sad! Angry?'') = - 3
   \<and> sentiment_details ascii_table (ascii ''Bad. Sad! Angry?'') = ascii ''Strongly Negative (score -3)''"
proof -
  have p: "sentiment_weight ascii_table (ascii ''great great great'') = 3"
    by (simp add: weight_defs)
  have n: "sentiment_weight ascii_table (ascii ''Bad. Sad! Angry?'') = - 3"
    by (simp add: weight_defs)
  show ?thesis
    using p n boundaries_asymmetric [of ascii_table "ascii ''great great great''" 0]
      boundaries_asymmetric [of ascii_table "ascii ''Bad. Sad! Angry?''" 0] by simp
qed

section \<open>Results: the crawl\<close>

lemma fetch_traces:
  "fetch_page_playwright E url sig w = (h, w') \<Longrightarrow>
     scraped w' = scraped w \<and> written w' = written w \<and> dir_exists w' = dir_exists w
     \<and> clock w' = Suc (clock w) \<and> rendered w' = rendered w @ [(url, h)]
     \<and> filter is_level (emitted w') = filter is_level (emitted w)"
  by (auto simp: fetch_page_playwright_def tick_def report_def split: sum.splits if_splits)

lemma fetch_answer:
  "fetch_page_playwright E url sig w = (h, w') \<Longrightarrow>
     (case h of Some html \<Rightarrow> render E (clock w) url = Inr html
      | None \<Rightarrow> (\<exists>e. render E (clock w) url = Inl e))"
  by (auto simp: fetch_page_playwright_def split: sum.splits)

lemma ocr_loop_traces:
  "ocr_loop E url sig srcs acc w = (ts, w') \<Longrightarrow>
     scraped w' = scraped w \<and> written w' = written w \<and> rendered w' = rendered w
     \<and> filter is_level (emitted w') = filter is_level (emitted w)"
proof (induction srcs arbitrary: acc w)
  case Nil
  then show ?case by simp
next
  case (Cons s srcs)
  show ?case
  proof (cases "urljoin E url s")
    case (Inl e)
    with Cons.prems show ?thesis by simp
  next
    case (Inr src)
    show ?thesis
    proof (cases "image_text E (clock w) src")
      case (Inl e)
      with Cons.prems Inr
      have "ocr_loop E url sig srcs acc (report sig (OcrWarning src e) (tick w)) = (ts, w')"
        by simp
      from Cons.IH [OF this] show ?thesis by (simp add: report_def tick_def)
    next
      case (Inr t)
      with Cons.prems \<open>urljoin E url s = Inr src\<close>
      obtain acc' where "ocr_loop E url sig srcs acc' (tick w) = (ts, w')"
        by simp
      from Cons.IH [OF this] show ?thesis by (simp add: tick_def)
    qed
  qed
qed

lemma ensure_dir_traces:
  "ensure_dir E w = (r, w') \<Longrightarrow>
     scraped w' = scraped w \<and> written w' = written w \<and> rendered w' = rendered w
     \<and> emitted w' = emitted w \<and> printed w' = printed w"
  by (auto simp: ensure_dir_def tick_def split: if_splits option.splits)

lemma save_dir_nonempty: "SAVE_DIR @ x \<noteq> []"
  by (simp add: SAVE_DIR_def ascii_def)

lemma scrape_article_no_dir:
  "ensure_dir E (w\<lparr>scraped := scraped w @ [url]\<rparr>) = (Some e, wd) \<Longrightarrow>
     scrape_article E url kw ocr sig w = (Inl e, wd)"
  by (simp add: scrape_article_def)

lemma scrape_article_no_markup:
  "ensure_dir E (w\<lparr>scraped := scraped w @ [url]\<rparr>) = (None, wd) \<Longrightarrow>
   fetch_page_playwright E url sig wd = (html, w2) \<Longrightarrow> \<not> truthy html \<Longrightarrow>
     scrape_article E url kw ocr sig w = (Inr None, w2)"
  by (simp add: scrape_article_def)

text \<open>
  What \<open>scrape_article\<close> does with markup: it reads the clock twice, looks at the
  images when asked to, and then either leaves with the \<open>ValueError\<close> of an image
  address or comes to \<open>open\<close>.
\<close>

lemma scrape_article_markup:
  assumes d: "ensure_dir E (w\<lparr>scraped := scraped w @ [url]\<rparr>) = (None, wd)"
    and f: "fetch_page_playwright E url sig wd = (html, w2)"
    and t: "truthy html"
    and o: "(if ocr then ocr_loop E url sig (soup_imgs E (case html of Some h \<Rightarrow> h | None \<Rightarrow> [])) []
                 (tick (tick w2))
             else (Inr [], tick (tick w2))) = (r5, w5)"
    and p: "filepath = SAVE_DIR @ ascii ''/''
      @ filename_of (chars E)
          (case soup_title E (case html of Some h \<Rightarrow> h | None \<Rightarrow> []) of
             Some t \<Rightarrow> t | None \<Rightarrow> ascii ''untitled'')
          (now E (clock w2))"
  shows "\<exists>content. scrape_article E url kw ocr sig w =
     (case r5 of
        Inl e \<Rightarrow> (Inl e, w5)
      | Inr ts \<Rightarrow>
          (case write_file E (clock w5) filepath of
             Some e \<Rightarrow> (Inl (OSError e), tick w5)
           | None \<Rightarrow> (Inr (Some filepath),
               report sig (SavedTo filepath)
                 ((tick w5)\<lparr>written := written w5 @ [(url, filepath, content)]\<rparr>))))"
proof (cases r5)
  case (Inl e)
  from d f t o Inl have "scrape_article E url kw ocr sig w = (Inl e, w5)"
    unfolding scrape_article_def Let_def
    by (simp only: split_conv if_False if_True simp_thms prod.case option.case sum.case)
  with Inl show ?thesis by simp
next
  case (Inr ts)
  from d f t o Inr have "\<exists>content. scrape_article E url kw ocr sig w =
             (case write_file E (clock w5) filepath of
                Some e \<Rightarrow> (Inl (OSError e), tick w5)
              | None \<Rightarrow> (Inr (Some filepath),
                  report sig (SavedTo filepath)
                    ((tick w5)\<lparr>written := written w5 @ [(url, filepath, content)]\<rparr>)))"
    unfolding scrape_article_def Let_def p
    by (simp only: split_conv if_False if_True simp_thms prod.case option.case sum.case) blast
  with Inr show ?thesis by simp
qed

lemma scrape_article_traces:
  assumes "scrape_article E url kw ocr sig w = (r, w')"
  shows "scraped w' = scraped w @ [url]
    \<and> filter is_level (emitted w') = filter is_level (emitted w)
    \<and> ((\<not> truthy (case r of Inr s \<Rightarrow> s | Inl e \<Rightarrow> None) \<and> written w' = written w)
         \<or> (\<exists>p t. r = Inr (Some p) \<and> p \<noteq> [] \<and> written w' = written w @ [(url, p, t)]))
    \<and> (case r of Inr s \<Rightarrow> (\<exists>a. rendered w' = rendered w @ [(url, a)]) | Inl e \<Rightarrow> True)
    \<and> (\<exists>rs. rendered w' = rendered w @ rs)"
proof -
  let ?w1 = "w\<lparr>scraped := scraped w @ [url]\<rparr>"
  obtain rd wd where d: "ensure_dir E ?w1 = (rd, wd)"
    by (cases "ensure_dir E ?w1")
  from ensure_dir_traces [OF d] have td: "scraped wd = scraped w @ [url]" "written wd = written w"
    "rendered wd = rendered w" "filter is_level (emitted wd) = filter is_level (emitted w)"
    by simp_all
  show ?thesis
  proof (cases rd)
    case (Some e)
    from scrape_article_no_dir [OF d [unfolded Some], of kw ocr sig] assms
    have "r = Inl e" "w' = wd" by simp_all
    with td show ?thesis by (simp add: truthy_def)
  next
    case None
    note d0 = d [unfolded None]
    obtain html w2 where f: "fetch_page_playwright E url sig wd = (html, w2)"
      by (cases "fetch_page_playwright E url sig wd")
    from fetch_traces [OF f] td have t2: "scraped w2 = scraped w @ [url]" "written w2 = written w"
      "rendered w2 = rendered w @ [(url, html)]"
      "filter is_level (emitted w2) = filter is_level (emitted w)" by simp_all
    show ?thesis
    proof (cases "truthy html")
      case False
      from scrape_article_no_markup [OF d0 f False, of kw ocr] assms
      have "r = Inr None" "w' = w2" by simp_all
      with t2 show ?thesis by (simp add: truthy_def)
    next
      case True
      let ?o = "if ocr then ocr_loop E url sig (soup_imgs E (case html of Some h \<Rightarrow> h | None \<Rightarrow> [])) []
                     (tick (tick w2))
                else (Inr [], tick (tick w2))"
      obtain r5 w5 where o: "?o = (r5, w5)"
        by (cases ?o)
      have h: "scraped w5 = scraped w2 \<and> written w5 = written w2 \<and> rendered w5 = rendered w2
        \<and> filter is_level (emitted w5) = filter is_level (emitted w2)"
      proof (cases ocr)
        case True
        with o have "ocr_loop E url sig (soup_imgs E (case html of Some h \<Rightarrow> h | None \<Rightarrow> [])) []
            (tick (tick w2)) = (r5, w5)" by simp
        from ocr_loop_traces [OF this] show ?thesis by (simp add: tick_def)
      next
        case False
        with o have "w5 = tick (tick w2)" by simp
        then show ?thesis by (simp add: tick_def)
      qed
      define filepath where "filepath = SAVE_DIR @ ascii ''/''
        @ filename_of (chars E)
            (case soup_title E (case html of Some h \<Rightarrow> h | None \<Rightarrow> []) of
               Some t \<Rightarrow> t | None \<Rightarrow> ascii ''untitled'')
            (now E (clock w2))"
      have ne: "filepath \<noteq> []" unfolding filepath_def by (rule save_dir_nonempty)
      from scrape_article_markup [OF d0 f True o filepath_def, of kw] obtain content
        where s: "scrape_article E url kw ocr sig w =
           (case r5 of
              Inl e \<Rightarrow> (Inl e, w5)
            | Inr ts \<Rightarrow>
                (case write_file E (clock w5) filepath of
                   Some e \<Rightarrow> (Inl (OSError e), tick w5)
                 | None \<Rightarrow> (Inr (Some filepath),
                     report sig (SavedTo filepath)
                       ((tick w5)\<lparr>written := written w5 @ [(url, filepath, content)]\<rparr>))))"
        by blast
      show ?thesis
      proof (cases r5)
        case (Inl e)
        with s assms have "r = Inl e" "w' = w5" by simp_all
        with h t2 show ?thesis by (simp add: truthy_def)
      next
        case (Inr ts)
        show ?thesis
        proof (cases "write_file E (clock w5) filepath")
          case None
          with s Inr assms have "r = Inr (Some filepath)"
            and "w' = report sig (SavedTo filepath)
                   ((tick w5)\<lparr>written := written w5 @ [(url, filepath, content)]\<rparr>)"
            by simp_all
          with h t2 ne show ?thesis by (simp add: report_def tick_def)
        next
          case (Some e)
          with s Inr assms have "r = Inl (OSError e)" and "w' = tick w5" by simp_all
          with h t2 show ?thesis by (simp add: tick_def truthy_def)
        qed
      qed
    qed
  qed
qed

lemma url_body_visited:
  "url \<in> visited c \<Longrightarrow> url_body E ocr sig kw url c w = (Finished, c, w)"
  by (simp add: url_body_def)

lemma url_body_raise:
  "url \<notin> visited c \<Longrightarrow> scrape_article E url kw ocr sig w = (Inl e, w1) \<Longrightarrow>
   url_body E ocr sig kw url c w = (Raised e, c\<lparr>visited := insert url (visited c)\<rparr>, w1)"
  by (simp add: url_body_def)

lemma url_body_step:
  assumes "url \<notin> visited c" and "scrape_article E url kw ocr sig w = (Inr saved, w1)"
    and "fetch_page_playwright E url sig w1 = (html, w2)"
    and "c2 = (if truthy saved then c\<lparr>visited := insert url (visited c), total_files := total_files c + 1\<rparr>
               else c\<lparr>visited := insert url (visited c)\<rparr>)"
  shows "url_body E ocr sig kw url c w =
     (if \<not> truthy html then (Finished, c2, w2)
      else case extract_links E url (case html of Some h \<Rightarrow> h | None \<Rightarrow> []) of
             Inl e \<Rightarrow> (Raised e, c2, w2)
           | Inr links \<Rightarrow>
               if total_files c2 \<ge> 50
               then (Returned (total_files c2),
                     c2\<lparr>next_links := next_links c2 @ list_of_set E links\<rparr>,
                     emit_if sig LimitReached w2)
               else (Finished, c2\<lparr>next_links := next_links c2 @ list_of_set E links\<rparr>, w2))"
  using assms by (simp add: url_body_def Let_def split: sum.splits)

lemma url_body_inv:
  assumes b: "url_body E ocr sig kw url c w = (r, c', w')" and ok: "traces_ok c w"
  shows "traces_ok c' w' \<and> filter is_level (emitted w') = filter is_level (emitted w)
     \<and> (case r of Returned n \<Rightarrow> n = total_files c' | _ \<Rightarrow> True)"
proof (cases "url \<in> visited c")
  case True
  with b ok show ?thesis by (simp add: url_body_visited)
next
  case False
  obtain r1 w1 where s: "scrape_article E url kw ocr sig w = (r1, w1)"
    by (cases "scrape_article E url kw ocr sig w")
  note t1 = scrape_article_traces [OF s]
  let ?c1 = "c\<lparr>visited := insert url (visited c)\<rparr>"
  from ok False have nu: "url \<notin> set (scraped w)" "url \<notin> fst ` set (written w)"
    by (auto simp: traces_ok_def)
  show ?thesis
  proof (cases r1)
    case (Inl e)
    from url_body_raise [OF False s [unfolded Inl]] b
    have "r = Raised e" "c' = ?c1" "w' = w1" by simp_all
    moreover from t1 Inl ok nu have "traces_ok ?c1 w1"
      by (auto simp: traces_ok_def truthy_def)
    ultimately show ?thesis using t1 by simp
  next
    case (Inr saved)
    obtain html w2 where f: "fetch_page_playwright E url sig w1 = (html, w2)"
      by (cases "fetch_page_playwright E url sig w1")
    note t2 = fetch_traces [OF f]
    define c2 where "c2 = (if truthy saved then c\<lparr>visited := insert url (visited c), total_files := total_files c + 1\<rparr>
             else c\<lparr>visited := insert url (visited c)\<rparr>)"
    have ok2: "traces_ok c2 w2"
    proof (cases "truthy saved")
      case True
      with t1 Inr obtain p t where "written w1 = written w @ [(url, p, t)]" by auto
      with t1 t2 True ok nu show ?thesis
        by (auto simp: traces_ok_def c2_def)
    next
      case False
      with t1 Inr have "written w1 = written w" by (auto simp: truthy_def)
      with t1 t2 False ok nu show ?thesis
        by (auto simp: traces_ok_def c2_def)
    qed
    have lv: "filter is_level (emitted w2) = filter is_level (emitted w)"
      using t1 t2 by simp
    note st = url_body_step [OF False s [unfolded Inr] f c2_def]
    show ?thesis
    proof (cases "truthy html")
      case False
      with st b have "r = Finished" "c' = c2" "w' = w2" by simp_all
      with ok2 lv show ?thesis by simp
    next
      case True
      show ?thesis
      proof (cases "extract_links E url (case html of Some h \<Rightarrow> h | None \<Rightarrow> [])")
        case (Inl e)
        with st True b have "r = Raised e" "c' = c2" "w' = w2" by simp_all
        with ok2 lv show ?thesis by simp
      next
        case (Inr links)
        let ?c3 = "c2\<lparr>next_links := next_links c2 @ list_of_set E links\<rparr>"
        have ok3: "traces_ok ?c3 w2" using ok2 by (simp add: traces_ok_def)
        show ?thesis
        proof (cases "total_files c2 \<ge> 50")
          case True
          with st \<open>truthy html\<close> Inr b
          have "r = Returned (total_files c2)" "c' = ?c3" "w' = emit_if sig LimitReached w2"
            by simp_all
          with ok3 lv show ?thesis by (simp add: emit_if_def traces_ok_def)
        next
          case False
          with st \<open>truthy html\<close> Inr b have "r = Finished" "c' = ?c3" "w' = w2" by simp_all
          with ok3 lv show ?thesis by simp
        qed
      qed
    qed
  qed
qed

lemma url_loop_next:
  "url_body E ocr sig kw url c w = (Finished, c1, w1) \<Longrightarrow>
     url_loop E ocr sig kw (url # rest) c w = url_loop E ocr sig kw rest c1 w1"
  by simp

lemma url_loop_stop:
  "url_body E ocr sig kw url c w = (r, c1, w1) \<Longrightarrow> r \<noteq> Finished \<Longrightarrow>
     url_loop E ocr sig kw (url # rest) c w = (r, c1, w1)"
  by (cases r) simp_all

lemma url_loop_inv:
  "url_loop E ocr sig kw us c w = (r, c', w') \<Longrightarrow> traces_ok c w \<Longrightarrow>
     traces_ok c' w' \<and> filter is_level (emitted w') = filter is_level (emitted w)
     \<and> (case r of Returned n \<Rightarrow> n = total_files c' | _ \<Rightarrow> True)"
proof (induction us arbitrary: c w)
  case Nil
  then show ?case by simp
next
  case (Cons url rest)
  obtain r1 c1 w1 where b: "url_body E ocr sig kw url c w = (r1, c1, w1)"
    by (cases "url_body E ocr sig kw url c w")
  note i1 = url_body_inv [OF b Cons.prems(2)]
  show ?case
  proof (cases "r1 = Finished")
    case True
    from url_loop_next [OF b [unfolded True], of rest] Cons.prems(1)
    have "url_loop E ocr sig kw rest c1 w1 = (r, c', w')" by simp
    from Cons.IH [OF this] i1 show ?thesis by simp
  next
    case False
    from url_loop_stop [OF b False, of rest] Cons.prems(1)
    have "r = r1" "c' = c1" "w' = w1" by simp_all
    with i1 show ?thesis by (auto split: outcome.splits)
  qed
qed

lemma level_loop_inv:
  "level_loop E ocr sig kw depth ls c w = (r, c', w') \<Longrightarrow> traces_ok c w \<Longrightarrow>
     traces_ok c' w'
     \<and> (case r of Inr n \<Rightarrow> n = total_files c' | Inl e \<Rightarrow> True)
     \<and> (\<exists>m\<le>length ls. filter is_level (emitted w') =
           filter is_level (emitted w)
             @ (if sig then map (\<lambda>l. CrawlLevel (l + 1) depth) (take m ls) else []))"
proof (induction ls arbitrary: c w)
  case Nil
  then show ?case by auto
next
  case (Cons level levels)
  let ?w1 = "emit_if sig (CrawlLevel (level + 1) depth) w"
  let ?c1 = "c\<lparr>next_links := []\<rparr>"
  obtain ro c2 w2 where u: "url_loop E ocr sig kw (to_visit ?c1) ?c1 ?w1 = (ro, c2, w2)"
    by (cases "url_loop E ocr sig kw (to_visit ?c1) ?c1 ?w1")
  from Cons.prems(2) have "traces_ok ?c1 ?w1"
    by (simp add: traces_ok_def emit_if_def)
  from url_loop_inv [OF u this]
  have ok2: "traces_ok c2 w2"
    and lv2: "filter is_level (emitted w2) = filter is_level (emitted ?w1)"
    and ret: "case ro of Returned n \<Rightarrow> n = total_files c2 | _ \<Rightarrow> True"
    by simp_all
  have lv1: "filter is_level (emitted ?w1) =
      filter is_level (emitted w) @ (if sig then [CrawlLevel (level + 1) depth] else [])"
    by (simp add: emit_if_def)
  have one: "filter is_level (emitted w2) = filter is_level (emitted w)
      @ (if sig then map (\<lambda>l. CrawlLevel (l + 1) depth) (take 1 (level # levels)) else [])"
    using lv1 lv2 by simp
  show ?case
  proof (cases ro)
    case (Raised e)
    with u Cons.prems(1) have "r = Inl e" "c' = c2" "w' = w2" by (simp_all add: Let_def)
    with ok2 one show ?thesis by (intro conjI exI [of _ 1]) simp_all
  next
    case (Returned n)
    with u Cons.prems(1) have "r = Inr n" "c' = c2" "w' = w2" by (simp_all add: Let_def)
    with ok2 one ret Returned show ?thesis by (intro conjI exI [of _ 1]) simp_all
  next
    case Finished
    with u Cons.prems(1)
    have l: "level_loop E ocr sig kw depth levels (c2\<lparr>to_visit := next_links c2\<rparr>) w2 = (r, c', w')"
      by (simp add: Let_def)
    from ok2 have "traces_ok (c2\<lparr>to_visit := next_links c2\<rparr>) w2" by (simp add: traces_ok_def)
    from Cons.IH [OF l this] obtain m where ok: "traces_ok c' w'"
      and res: "case r of Inr n \<Rightarrow> n = total_files c' | Inl e \<Rightarrow> True"
      and m: "m \<le> length levels"
      and lv: "filter is_level (emitted w') = filter is_level (emitted w2)
             @ (if sig then map (\<lambda>l. CrawlLevel (l + 1) depth) (take m levels) else [])"
      by blast
    from lv one have "filter is_level (emitted w') = filter is_level (emitted w)
        @ (if sig then map (\<lambda>l. CrawlLevel (l + 1) depth) (take (Suc m) (level # levels)) else [])"
      by simp
    with m ok res show ?thesis by (intro conjI exI [of _ "Suc m"]) simp_all
  qed
qed

lemma traces_ok_start:
  "traces_ok \<lparr>visited = {}, to_visit = [start_url], total_files = 0, next_links = []\<rparr> world0"
  by (simp add: traces_ok_def world0_def)

lemma run_scraper_inv:
  assumes "run_scraper E start kw depth ocr sig world0 = (r, c, w)"
  shows "traces_ok c w" and "case r of Inr n \<Rightarrow> n = total_files c | Inl e \<Rightarrow> True"
    and "\<exists>m\<le>nat depth. filter is_level (emitted w) =
           (if sig then map (\<lambda>l. CrawlLevel (l + 1) depth) (take m [0..depth - 1]) else [])"
proof -
  have e: "filter is_level (emitted world0) = []" by (simp add: world0_def)
  have n: "length [0..depth - 1] = nat depth" by simp
  from level_loop_inv [OF assms [unfolded run_scraper_def] traces_ok_start]
  show "traces_ok c w" and "case r of Inr n \<Rightarrow> n = total_files c | Inl e \<Rightarrow> True"
    and "\<exists>m\<le>nat depth. filter is_level (emitted w) =
           (if sig then map (\<lambda>l. CrawlLevel (l + 1) depth) (take m [0..depth - 1]) else [])"
    unfolding e n by simp_all
qed

text \<open>
  C5. In a run of \<open>run_scraper\<close> no URL is handed to \<open>scrape_article\<close> twice and no URL
  has two output files; the counter is the number of files written. In the loop a URL
  that is already in \<open>visited\<close> is passed over with nothing rendered, written or
  counted: the loop goes on with the rest in the same state and the same world.
\<close>

theorem visited_url_never_scraped_again:
  "distinct (scraped (snd (snd (run_scraper E start kw depth ocr sig world0))))
   \<and> distinct (map fst (written (snd (snd (run_scraper E start kw depth ocr sig world0)))))
   \<and> total_files (fst (snd (run_scraper E start kw depth ocr sig world0)))
       = int (length (written (snd (snd (run_scraper E start kw depth ocr sig world0)))))
   \<and> (url \<in> visited c \<longrightarrow>
        url_loop E ocr sig kw (url # rest) c w = url_loop E ocr sig kw rest c w)"
proof -
  obtain r c' w' where run: "run_scraper E start kw depth ocr sig world0 = (r, c', w')"
    by (cases "run_scraper E start kw depth ocr sig world0")
  from run_scraper_inv(1) [OF run] show ?thesis
    unfolding run by (simp add: traces_ok_def url_body_visited)
qed

theorem visited_url_never_scraped_again_witness:
  "url_a \<in> visited ((crawl0 url_a)\<lparr>visited := {url_a}\<rparr>)
   \<and> url_loop demo_env False True None (url_a # [url_b]) ((crawl0 url_a)\<lparr>visited := {url_a}\<rparr>) world0
       = url_loop demo_env False True None [url_b] ((crawl0 url_a)\<lparr>visited := {url_a}\<rparr>) world0
   \<and> distinct (scraped (snd (snd (run_scraper demo_env url_a None 2 False True world0))))"
proof -
  have m: "url_a \<in> visited ((crawl0 url_a)\<lparr>visited := {url_a}\<rparr>)" by simp
  from m visited_url_never_scraped_again [of demo_env url_a None 2 False True url_a
      "(crawl0 url_a)\<lparr>visited := {url_a}\<rparr>" "[url_b]" world0]
  show ?thesis by blast
qed

subsection \<open>When nothing outside the renderer raises\<close>

lemma list_of_set_set: "set (list_of_set E s) = set s"
  by (simp add: list_of_set_def)

lemma list_of_set_distinct: "distinct (list_of_set E s) = distinct s"
  by (simp add: list_of_set_def)

lemma ocr_loop_reliable:
  "reliable E \<Longrightarrow> \<exists>ts w'. ocr_loop E url sig srcs acc w = (Inr ts, w')"
proof (induction srcs arbitrary: acc w)
  case Nil
  show ?case by simp
next
  case (Cons s srcs)
  from Cons.prems obtain src where j: "urljoin E url s = Inr src"
    unfolding reliable_def by blast
  show ?case
  proof (cases "image_text E (clock w) src")
    case (Inl e)
    with j Cons.IH [OF Cons.prems, of acc "report sig (OcrWarning src e) (tick w)"]
    show ?thesis by simp
  next
    case (Inr t)
    with j Cons.IH [OF Cons.prems, of acc "tick w"]
      Cons.IH [OF Cons.prems,
        of "acc @ [ascii ''Image text from '' @ src @ ascii '':'' @ nl @ t @ nl]" "tick w"]
    show ?thesis by simp
  qed
qed

lemma collect_links_reliable:
  "reliable E \<Longrightarrow> \<exists>s. collect_links E b hs links = Inr s"
proof (induction hs arbitrary: links)
  case Nil
  show ?case by simp
next
  case (Cons h hs)
  from Cons.prems obtain u where j: "urljoin E b h = Inr u"
    unfolding reliable_def by blast
  with Cons.IH [OF Cons.prems, of links] Cons.IH [OF Cons.prems, of "set_add u links"]
  show ?case by simp
qed

lemma extract_links_reliable:
  "reliable E \<Longrightarrow> \<exists>s. extract_links E b soup = Inr s"
  unfolding extract_links_def by (rule collect_links_reliable)

lemma ensure_dir_reliable:
  "reliable E \<Longrightarrow> \<exists>wd. ensure_dir E w = (None, wd) \<and> clock wd \<le> Suc (clock w)"
  by (auto simp: ensure_dir_def reliable_def tick_def)

text \<open>
  With markup that is not empty \<open>scrape_article\<close> comes to its last line and returns
  the path; without OCR it has then asked the world four times since the directory
  was seen: the render, two time stamps and the write.
\<close>

lemma scrape_article_saved:
  assumes rel: "reliable E"
    and d: "ensure_dir E (w\<lparr>scraped := scraped w @ [url]\<rparr>) = (None, wd)"
    and r: "render E (clock wd) url = Inr h" and h: "h \<noteq> []"
  shows "\<exists>p w1. scrape_article E url kw ocr sig w = (Inr (Some p), w1) \<and> p \<noteq> []
     \<and> (\<not> ocr \<longrightarrow> clock w1 = clock wd + 4 \<and> dir_exists w1 = dir_exists wd)"
proof -
  let ?w2 = "(tick wd)\<lparr>rendered := rendered wd @ [(url, Some h)]\<rparr>"
  have f: "fetch_page_playwright E url sig wd = (Some h, ?w2)"
    using r by (simp add: fetch_page_playwright_def)
  have t: "truthy (Some h)" using h by (simp add: truthy_def)
  let ?o = "if ocr then ocr_loop E url sig (soup_imgs E (case Some h of Some h \<Rightarrow> h | None \<Rightarrow> [])) []
                 (tick (tick ?w2))
            else (Inr [], tick (tick ?w2))"
  obtain r5 w5 where o: "?o = (r5, w5)"
    by (cases ?o)
  have "\<exists>ts. r5 = Inr ts"
  proof (cases ocr)
    case True
    from ocr_loop_reliable [OF rel, of url sig "soup_imgs E h" "[]" "tick (tick ?w2)"]
    obtain ts w' where "ocr_loop E url sig (soup_imgs E h) [] (tick (tick ?w2)) = (Inr ts, w')"
      by blast
    with o True show ?thesis by auto
  next
    case False
    with o show ?thesis by auto
  qed
  then obtain ts where r5: "r5 = Inr ts" by blast
  from o have k5: "\<not> ocr \<longrightarrow> clock w5 = clock wd + 3 \<and> dir_exists w5 = dir_exists wd"
    by (auto simp: tick_def)
  from rel have nw: "write_file E n p = None" for n p
    by (simp add: reliable_def)
  define filepath where "filepath = SAVE_DIR @ ascii ''/''
    @ filename_of (chars E)
        (case soup_title E (case Some h of Some h \<Rightarrow> h | None \<Rightarrow> []) of
           Some t \<Rightarrow> t | None \<Rightarrow> ascii ''untitled'')
        (now E (clock ?w2))"
  have "filepath \<noteq> []" unfolding filepath_def by (rule save_dir_nonempty)
  moreover from scrape_article_markup [OF d f t o filepath_def, of kw] obtain content
    where "scrape_article E url kw ocr sig w =
       (Inr (Some filepath),
        report sig (SavedTo filepath)
          ((tick w5)\<lparr>written := written w5 @ [(url, filepath, content)]\<rparr>))"
    unfolding r5 by (auto simp: nw)
  ultimately show ?thesis using k5 by (auto simp: report_def tick_def)
qed

lemma scrape_article_failed:
  assumes d: "ensure_dir E (w\<lparr>scraped := scraped w @ [url]\<rparr>) = (None, wd)"
    and r: "render E (clock wd) url = Inl e"
  shows "scrape_article E url kw ocr sig w =
     (Inr None, report sig (FetchFailed url e) ((tick wd)\<lparr>rendered := rendered wd @ [(url, None)]\<rparr>))"
proof -
  have f: "fetch_page_playwright E url sig wd =
      (None, report sig (FetchFailed url e) ((tick wd)\<lparr>rendered := rendered wd @ [(url, None)]\<rparr>))"
    using r by (simp add: fetch_page_playwright_def)
  have "\<not> truthy None" by (simp add: truthy_def)
  from scrape_article_no_markup [OF d f this] show ?thesis .
qed

lemma scrape_article_reliable:
  assumes rel: "reliable E"
  shows "\<exists>s w1. scrape_article E url kw ocr sig w = (Inr s, w1)"
proof -
  from ensure_dir_reliable [OF rel] obtain wd
    where d: "ensure_dir E (w\<lparr>scraped := scraped w @ [url]\<rparr>) = (None, wd)" by blast
  show ?thesis
  proof (cases "render E (clock wd) url")
    case (Inl e)
    from scrape_article_failed [OF d Inl] show ?thesis by blast
  next
    case (Inr h)
    show ?thesis
    proof (cases "h = []")
      case True
      have f: "fetch_page_playwright E url sig wd =
          (Some h, (tick wd)\<lparr>rendered := rendered wd @ [(url, Some h)]\<rparr>)"
        using Inr by (simp add: fetch_page_playwright_def)
      have "\<not> truthy (Some h)" using True by (simp add: truthy_def)
      from scrape_article_no_markup [OF d f this] show ?thesis by blast
    next
      case False
      from scrape_article_saved [OF rel d Inr False] show ?thesis by blast
    qed
  qed
qed

lemma url_body_reliable:
  assumes rel: "reliable E" and b: "url_body E ocr sig kw url c w = (r, c', w')"
  shows "(r = Finished \<or> r = Returned (total_files c') \<and> 50 \<le> total_files c')
     \<and> total_files c \<le> total_files c' \<and> total_files c' \<le> total_files c + 1"
proof (cases "url \<in> visited c")
  case True
  with b show ?thesis by (simp add: url_body_visited)
next
  case False
  from scrape_article_reliable [OF rel] obtain saved w1
    where s: "scrape_article E url kw ocr sig w = (Inr saved, w1)" by blast
  obtain html w2 where f: "fetch_page_playwright E url sig w1 = (html, w2)"
    by (cases "fetch_page_playwright E url sig w1")
  define c2 where "c2 = (if truthy saved then c\<lparr>visited := insert url (visited c), total_files := total_files c + 1\<rparr>
           else c\<lparr>visited := insert url (visited c)\<rparr>)"
  have t2: "total_files c \<le> total_files c2" "total_files c2 \<le> total_files c + 1"
    by (simp_all add: c2_def)
  from extract_links_reliable [OF rel] obtain links
    where x: "extract_links E url (case html of Some h \<Rightarrow> h | None \<Rightarrow> []) = Inr links" by blast
  from url_body_step [OF False s f c2_def] b x t2 show ?thesis
    by (auto split: if_splits)
qed

lemma url_loop_reliable:
  "reliable E \<Longrightarrow> url_loop E ocr sig kw us c w = (r, c', w') \<Longrightarrow>
     (r = Finished \<or> r = Returned (total_files c') \<and> 50 \<le> total_files c')
     \<and> total_files c \<le> total_files c' \<and> total_files c' \<le> total_files c + int (length us)"
proof (induction us arbitrary: c w)
  case Nil
  then show ?case by simp
next
  case (Cons url rest)
  obtain r1 c1 w1 where b: "url_body E ocr sig kw url c w = (r1, c1, w1)"
    by (cases "url_body E ocr sig kw url c w")
  note i1 = url_body_reliable [OF Cons.prems(1) b]
  show ?case
  proof (cases "r1 = Finished")
    case True
    from url_loop_next [OF b [unfolded True], of rest] Cons.prems(2)
    have "url_loop E ocr sig kw rest c1 w1 = (r, c', w')" by simp
    from Cons.IH [OF Cons.prems(1) this] i1 show ?thesis by simp
  next
    case False
    from url_loop_stop [OF b False, of rest] Cons.prems(2)
    have "r = r1" "c' = c1" "w' = w1" by simp_all
    with i1 show ?thesis by auto
  qed
qed

lemma level_loop_reliable:
  "reliable E \<Longrightarrow> \<exists>n. fst (level_loop E ocr sig kw depth ls c w) = Inr n"
proof (induction ls arbitrary: c w)
  case Nil
  show ?case by simp
next
  case (Cons level levels)
  let ?w1 = "emit_if sig (CrawlLevel (level + 1) depth) w"
  let ?c1 = "c\<lparr>next_links := []\<rparr>"
  obtain ro c2 w2 where u: "url_loop E ocr sig kw (to_visit ?c1) ?c1 ?w1 = (ro, c2, w2)"
    by (cases "url_loop E ocr sig kw (to_visit ?c1) ?c1 ?w1")
  from url_loop_reliable [OF Cons.prems u]
  have "ro = Finished \<or> ro = Returned (total_files c2)" by blast
  then show ?case
  proof
    assume "ro = Finished"
    with u Cons.IH [OF Cons.prems, of "c2\<lparr>to_visit := next_links c2\<rparr>" w2]
    show ?thesis by (simp add: Let_def)
  next
    assume "ro = Returned (total_files c2)"
    with u show ?thesis by (simp add: Let_def)
  qed
qed

subsection \<open>How far from the start a crawl gets\<close>

text \<open>
  In the three lemmas, \<open>rs\<close> are the renders of the part of the run that the lemma
  looks at, and \<open>R\<close> is any list of renders that holds them: in the end, the renders
  of the whole run.
\<close>

lemma url_body_reach:
  assumes b: "url_body E ocr sig kw url c w = (r, c', w')"
  shows "\<exists>rs. rendered w' = rendered w @ rs
     \<and> (scraped w' = scraped w \<or> scraped w' = scraped w @ [url])
     \<and> (\<forall>R. set rs \<subseteq> set R \<longrightarrow> reached E R start j url \<longrightarrow>
           (\<forall>v \<in> set (next_links c). reached E R start (Suc j) v) \<longrightarrow>
           (\<forall>v \<in> set (next_links c'). reached E R start (Suc j) v))"
proof (cases "url \<in> visited c")
  case True
  with b show ?thesis by (simp add: url_body_visited)
next
  case False
  obtain r1 w1 where s: "scrape_article E url kw ocr sig w = (r1, w1)"
    by (cases "scrape_article E url kw ocr sig w")
  from scrape_article_traces [OF s] obtain rs1 where t1: "scraped w1 = scraped w @ [url]"
    and g1: "rendered w1 = rendered w @ rs1" by auto
  show ?thesis
  proof (cases r1)
    case (Inl e)
    from url_body_raise [OF False s [unfolded Inl]] b
    have "c' = c\<lparr>visited := insert url (visited c)\<rparr>" "w' = w1" by simp_all
    with t1 g1 show ?thesis by (intro exI [of _ rs1]) simp
  next
    case (Inr saved)
    obtain html w2 where f: "fetch_page_playwright E url sig w1 = (html, w2)"
      by (cases "fetch_page_playwright E url sig w1")
    from fetch_traces [OF f] t1 g1 have t2: "scraped w2 = scraped w @ [url]"
      and g2: "rendered w2 = rendered w @ (rs1 @ [(url, html)])" by simp_all
    define c2 where "c2 = (if truthy saved then c\<lparr>visited := insert url (visited c), total_files := total_files c + 1\<rparr>
             else c\<lparr>visited := insert url (visited c)\<rparr>)"
    have n2: "next_links c2 = next_links c" by (simp add: c2_def)
    note st = url_body_step [OF False s [unfolded Inr] f c2_def]
    show ?thesis
    proof (cases "truthy html")
      case False
      with st b have "c' = c2" "w' = w2" by simp_all
      with n2 t2 g2 show ?thesis by (intro exI [of _ "rs1 @ [(url, html)]"]) simp
    next
      case True
      then obtain h where h: "html = Some h" by (cases html) (simp_all add: truthy_def)
      show ?thesis
      proof (cases "extract_links E url h")
        case (Inl e)
        with st True h b have "c' = c2" "w' = w2" by simp_all
        with n2 t2 g2 show ?thesis by (intro exI [of _ "rs1 @ [(url, html)]"]) simp
      next
        case (Inr links)
        with st True h b
        have c': "next_links c' = next_links c2 @ list_of_set E links"
          and w': "scraped w' = scraped w2" "rendered w' = rendered w2"
          by (auto simp: emit_if_def split: if_splits)
        have "\<forall>v \<in> set (next_links c'). reached E R start (Suc j) v"
          if sub: "set (rs1 @ [(url, html)]) \<subseteq> set R" and u: "reached E R start j url"
            and nl: "\<forall>v \<in> set (next_links c). reached E R start (Suc j) v" for R
        proof -
          from sub h have m: "(url, Some h) \<in> set R" by simp
          have "reached E R start (Suc j) v" if "v \<in> set links" for v
            using reached_link [OF u m Inr that] .
          with nl n2 c' show ?thesis by (auto simp: list_of_set_set)
        qed
        with w' t2 g2 show ?thesis by (intro exI [of _ "rs1 @ [(url, html)]"]) simp
      qed
    qed
  qed
qed

lemma url_loop_reach:
  "url_loop E ocr sig kw us c w = (r, c', w') \<Longrightarrow>
     \<exists>rs new. rendered w' = rendered w @ rs \<and> scraped w' = scraped w @ new \<and> set new \<subseteq> set us
       \<and> (\<forall>R. set rs \<subseteq> set R \<longrightarrow> (\<forall>u \<in> set us. reached E R start j u) \<longrightarrow>
             (\<forall>v \<in> set (next_links c). reached E R start (Suc j) v) \<longrightarrow>
             (\<forall>v \<in> set (next_links c'). reached E R start (Suc j) v))"
proof (induction us arbitrary: c w)
  case Nil
  then show ?case by simp
next
  case (Cons url rest)
  obtain r1 c1 w1 where b: "url_body E ocr sig kw url c w = (r1, c1, w1)"
    by (cases "url_body E ocr sig kw url c w")
  from url_body_reach [OF b, of start j] obtain rs1
    where g1: "rendered w1 = rendered w @ rs1"
      and s1: "scraped w1 = scraped w \<or> scraped w1 = scraped w @ [url]"
      and n1: "\<And>R. set rs1 \<subseteq> set R \<Longrightarrow> reached E R start j url \<Longrightarrow>
           \<forall>v \<in> set (next_links c). reached E R start (Suc j) v \<Longrightarrow>
           \<forall>v \<in> set (next_links c1). reached E R start (Suc j) v"
    by blast
  from s1 obtain new1 where new1: "scraped w1 = scraped w @ new1" "set new1 \<subseteq> {url}"
    by auto
  show ?case
  proof (cases "r1 = Finished")
    case True
    from url_loop_next [OF b [unfolded True], of rest] Cons.prems
    have l: "url_loop E ocr sig kw rest c1 w1 = (r, c', w')" by simp
    from Cons.IH [OF l] obtain rs2 new2
      where g2: "rendered w' = rendered w1 @ rs2" and s2: "scraped w' = scraped w1 @ new2"
        and sub2: "set new2 \<subseteq> set rest"
        and n2: "\<And>R. set rs2 \<subseteq> set R \<Longrightarrow> \<forall>u \<in> set rest. reached E R start j u \<Longrightarrow>
             \<forall>v \<in> set (next_links c1). reached E R start (Suc j) v \<Longrightarrow>
             \<forall>v \<in> set (next_links c'). reached E R start (Suc j) v"
      by blast
    have "\<forall>v \<in> set (next_links c'). reached E R start (Suc j) v"
      if "set (rs1 @ rs2) \<subseteq> set R" and us: "\<forall>u \<in> set (url # rest). reached E R start j u"
        and nl: "\<forall>v \<in> set (next_links c). reached E R start (Suc j) v" for R
    proof -
      from that(1) have "set rs1 \<subseteq> set R" "set rs2 \<subseteq> set R" by simp_all
      moreover from us have "reached E R start j url" "\<forall>u \<in> set rest. reached E R start j u"
        by simp_all
      ultimately show ?thesis using n1 n2 nl by blast
    qed
    with g1 g2 new1 s2 sub2 show ?thesis
      by (intro exI [of _ "rs1 @ rs2"] exI [of _ "new1 @ new2"]) auto
  next
    case False
    from url_loop_stop [OF b False, of rest] Cons.prems
    have "c' = c1" "w' = w1" by simp_all
    with g1 new1 n1 show ?thesis
      by (intro exI [of _ rs1] exI [of _ new1]) auto
  qed
qed

lemma level_loop_reach:
  "level_loop E ocr sig kw depth ls c w = (r, c', w') \<Longrightarrow>
     \<exists>rs new. rendered w' = rendered w @ rs \<and> scraped w' = scraped w @ new
       \<and> (\<forall>R. set rs \<subseteq> set R \<longrightarrow> (\<forall>u \<in> set (to_visit c). reached E R start j u) \<longrightarrow>
             (\<forall>u \<in> set new. \<exists>k. j \<le> k \<and> k < j + length ls \<and> reached E R start k u))"
proof (induction ls arbitrary: c w j)
  case Nil
  then show ?case by simp
next
  case (Cons level levels)
  let ?w1 = "emit_if sig (CrawlLevel (level + 1) depth) w"
  let ?c1 = "c\<lparr>next_links := []\<rparr>"
  obtain ro c2 w2 where u: "url_loop E ocr sig kw (to_visit c) ?c1 ?w1 = (ro, c2, w2)"
    by (cases "url_loop E ocr sig kw (to_visit c) ?c1 ?w1")
  from url_loop_reach [OF u, of start j] obtain rs1 new1
    where g1: "rendered w2 = rendered w @ rs1" and s1: "scraped w2 = scraped w @ new1"
      and sub: "set new1 \<subseteq> set (to_visit c)"
      and n1: "\<And>R. set rs1 \<subseteq> set R \<Longrightarrow> \<forall>u \<in> set (to_visit c). reached E R start j u \<Longrightarrow>
             \<forall>v \<in> set (next_links c2). reached E R start (Suc j) v"
    by (auto simp: emit_if_def)
  have r1: "\<forall>u \<in> set new1. \<exists>k. j \<le> k \<and> k < j + length (level # levels) \<and> reached E R start k u"
    if "\<forall>u \<in> set (to_visit c). reached E R start j u" for R
  proof
    fix u assume "u \<in> set new1"
    with sub that have "reached E R start j u" by auto
    then show "\<exists>k. j \<le> k \<and> k < j + length (level # levels) \<and> reached E R start k u"
      by (intro exI [of _ j]) simp
  qed
  show ?case
  proof (cases "ro = Finished")
    case True
    with u Cons.prems
    have l: "level_loop E ocr sig kw depth levels (c2\<lparr>to_visit := next_links c2\<rparr>) w2 = (r, c', w')"
      by (simp add: Let_def)
    from Cons.IH [OF l, of "Suc j"] obtain rs2 new2
      where g2: "rendered w' = rendered w2 @ rs2" and s2: "scraped w' = scraped w2 @ new2"
        and n2: "\<And>R. set rs2 \<subseteq> set R \<Longrightarrow> \<forall>u \<in> set (next_links c2). reached E R start (Suc j) u \<Longrightarrow>
             \<forall>u \<in> set new2. \<exists>k. Suc j \<le> k \<and> k < Suc j + length levels \<and> reached E R start k u"
      by auto
    have "\<forall>u \<in> set (new1 @ new2). \<exists>k. j \<le> k \<and> k < j + length (level # levels) \<and> reached E R start k u"
      if rs: "set (rs1 @ rs2) \<subseteq> set R" and tv: "\<forall>u \<in> set (to_visit c). reached E R start j u" for R
    proof
      fix u assume "u \<in> set (new1 @ new2)"
      then consider "u \<in> set new1" | "u \<in> set new2" by auto
      then show "\<exists>k. j \<le> k \<and> k < j + length (level # levels) \<and> reached E R start k u"
      proof cases
        case 1
        with r1 [OF tv] show ?thesis by blast
      next
        case 2
        from rs have "set rs1 \<subseteq> set R" "set rs2 \<subseteq> set R" by simp_all
        from n2 [OF this(2) n1 [OF this(1) tv]] 2 obtain k
          where "Suc j \<le> k" "k < Suc j + length levels" "reached E R start k u" by blast
        then show ?thesis by (intro exI [of _ k]) simp
      qed
    qed
    with g1 g2 s1 s2 show ?thesis
      by (intro exI [of _ "rs1 @ rs2"] exI [of _ "new1 @ new2"]) simp
  next
    case False
    with u Cons.prems have "w' = w2" by (cases ro) (simp_all add: Let_def)
    with g1 s1 r1 show ?thesis
      by (intro exI [of _ rs1] exI [of _ new1]) simp
  qed
qed

subsection \<open>The loops come to an end\<close>

lemma url_body_to_visit:
  "url_body E ocr sig kw url c w = (r, c', w') \<Longrightarrow> to_visit c' = to_visit c"
  by (auto simp: url_body_def Let_def split: if_splits prod.splits sum.splits)

lemma url_iter_loop:
  "i \<le> length (to_visit c) \<Longrightarrow>
     url_iter E ocr sig kw i c w = Some (url_loop E ocr sig kw (drop i (to_visit c)) c w)"
proof (induction "length (to_visit c) - i" arbitrary: i c w)
  case 0
  then have "drop i (to_visit c) = []" and "\<not> i < length (to_visit c)" by simp_all
  then show ?case by (subst url_iter.simps) simp
next
  case (Suc n)
  then have lt: "i < length (to_visit c)" by simp
  then have dr: "drop i (to_visit c) = to_visit c ! i # drop (Suc i) (to_visit c)"
    by (simp add: Cons_nth_drop_Suc)
  obtain r c1 w1 where b: "url_body E ocr sig kw (to_visit c ! i) c w = (r, c1, w1)"
    by (cases "url_body E ocr sig kw (to_visit c ! i) c w")
  from url_body_to_visit [OF b] have tv: "to_visit c1 = to_visit c" .
  show ?case
  proof (cases "r = Finished")
    case True
    have "n = length (to_visit c1) - Suc i" using Suc.hyps(2) tv by simp
    moreover have "Suc i \<le> length (to_visit c1)" using lt tv by simp
    ultimately have "url_iter E ocr sig kw (Suc i) c1 w1 =
        Some (url_loop E ocr sig kw (drop (Suc i) (to_visit c1)) c1 w1)"
      by (rule Suc.hyps(1))
    with b True lt tv dr show ?thesis by (subst url_iter.simps) simp
  next
    case False
    with b lt dr show ?thesis by (subst url_iter.simps) (cases r; simp)
  qed
qed

lemma level_iter_loop:
  "level_iter E ocr sig kw depth level c w =
     Some (level_loop E ocr sig kw depth [level..depth - 1] c w)"
proof (induction "nat (depth - level)" arbitrary: level c w)
  case 0
  then have "\<not> level < depth" and "[level..depth - 1] = []" by simp_all
  then show ?case by (subst level_iter.simps) simp
next
  case (Suc n)
  then have lt: "level < depth" by simp
  then have up: "[level..depth - 1] = level # [level + 1..depth - 1]"
    by (simp add: upto_rec1)
  let ?w1 = "emit_if sig (CrawlLevel (level + 1) depth) w"
  let ?c1 = "c\<lparr>next_links := []\<rparr>"
  have u: "url_iter E ocr sig kw 0 ?c1 ?w1 = Some (url_loop E ocr sig kw (to_visit c) ?c1 ?w1)"
    using url_iter_loop [of 0 ?c1 E ocr sig kw ?w1] by simp
  obtain ro c2 w2 where l: "url_loop E ocr sig kw (to_visit c) ?c1 ?w1 = (ro, c2, w2)"
    by (cases "url_loop E ocr sig kw (to_visit c) ?c1 ?w1")
  have "n = nat (depth - (level + 1))" using Suc.hyps(2) by simp
  then have ih: "level_iter E ocr sig kw depth (level + 1) (c2\<lparr>to_visit := next_links c2\<rparr>) w2 =
      Some (level_loop E ocr sig kw depth [level + 1..depth - 1] (c2\<lparr>to_visit := next_links c2\<rparr>) w2)"
    by (rule Suc.hyps(1))
  show ?case unfolding up
    by (subst level_iter.simps) (cases ro; simp add: lt u l ih Let_def)
qed

subsection \<open>The site of three pages\<close>

text \<open>
  A page that renders every time, to markup whose links resolve, is saved and its links
  join the frontier; a page that never renders leaves nothing but its mark in \<open>visited\<close>.
\<close>

lemma stable_page:
  assumes rel: "reliable E"
    and r: "\<And>n. render E n url = Inr h" and h: "h \<noteq> []"
    and x: "extract_links E url h = Inr links"
    and nv: "url \<notin> visited c" and lt: "total_files c < 49"
  shows "\<exists>w'. url_body E ocr sig kw url c w =
       (Finished,
        c\<lparr>visited := insert url (visited c), total_files := total_files c + 1,
          next_links := next_links c @ list_of_set E links\<rparr>, w')
     \<and> scraped w' = scraped w @ [url]"
proof -
  from ensure_dir_reliable [OF rel] obtain wd
    where d: "ensure_dir E (w\<lparr>scraped := scraped w @ [url]\<rparr>) = (None, wd)" by blast
  from scrape_article_saved [OF rel d r h, of kw ocr sig] obtain p w1
    where s: "scrape_article E url kw ocr sig w = (Inr (Some p), w1)" and p: "p \<noteq> []" by blast
  from scrape_article_traces [OF s] have t1: "scraped w1 = scraped w @ [url]" by simp
  let ?w2 = "(tick w1)\<lparr>rendered := rendered w1 @ [(url, Some h)]\<rparr>"
  have f: "fetch_page_playwright E url sig w1 = (Some h, ?w2)"
    using r by (simp add: fetch_page_playwright_def)
  have t: "truthy (Some p)" "truthy (Some h)" using p h by (simp_all add: truthy_def)
  from url_body_step [OF nv s f refl] t x lt
  have "url_body E ocr sig kw url c w =
       (Finished,
        c\<lparr>visited := insert url (visited c), total_files := total_files c + 1,
          next_links := next_links c @ list_of_set E links\<rparr>, ?w2)"
    by simp
  with t1 show ?thesis by (intro exI [of _ ?w2]) (simp add: tick_def)
qed

lemma dead_page:
  assumes rel: "reliable E"
    and r: "\<And>n. \<exists>e. render E n url = Inl e"
    and nv: "url \<notin> visited c"
  shows "\<exists>w'. url_body E ocr sig kw url c w = (Finished, c\<lparr>visited := insert url (visited c)\<rparr>, w')
     \<and> scraped w' = scraped w @ [url]"
proof -
  from ensure_dir_reliable [OF rel] obtain wd
    where d: "ensure_dir E (w\<lparr>scraped := scraped w @ [url]\<rparr>) = (None, wd)" by blast
  from r obtain e where e: "render E (clock wd) url = Inl e" by blast
  note s = scrape_article_failed [OF d e, of kw ocr sig]
  from scrape_article_traces [OF s] have t1:
    "scraped (report sig (FetchFailed url e) ((tick wd)\<lparr>rendered := rendered wd @ [(url, None)]\<rparr>))
       = scraped w @ [url]" by simp
  obtain html w2 where f: "fetch_page_playwright E url sig
      (report sig (FetchFailed url e) ((tick wd)\<lparr>rendered := rendered wd @ [(url, None)]\<rparr>)) = (html, w2)"
    by (cases "fetch_page_playwright E url sig
      (report sig (FetchFailed url e) ((tick wd)\<lparr>rendered := rendered wd @ [(url, None)]\<rparr>))")
  from fetch_answer [OF f] r have "html = None"
    by (cases html) (auto, metis sum.distinct(1))
  then have nt: "\<not> truthy html" by (simp add: truthy_def)
  have "\<not> truthy None" by (simp add: truthy_def)
  with url_body_step [OF nv s f refl] nt
  have "url_body E ocr sig kw url c w = (Finished, c\<lparr>visited := insert url (visited c)\<rparr>, w2)"
    by simp
  moreover from fetch_traces [OF f] t1 have "scraped w2 = scraped w @ [url]" by simp
  ultimately show ?thesis by blast
qed

lemma demo_urls:
  "url_a \<noteq> url_b" "url_a \<noteq> url_c" "url_b \<noteq> url_c" "url_b \<noteq> url_a" "url_c \<noteq> url_a" "url_c \<noteq> url_b"
  by (simp_all add: url_a_def url_b_def url_c_def ascii_def)

lemma demo_reliable: "reliable demo_env"
  by (simp add: reliable_def demo_env_def)

lemma demo_http:
  "startswith url_a (ascii ''http'')" "startswith url_b (ascii ''http'')"
  "startswith url_c (ascii ''http'')"
  by (simp_all add: startswith_def url_a_def url_b_def url_c_def ascii_def)

lemma demo_links_a: "extract_links demo_env url_a (ascii ''A'') = Inr [url_c, url_b]"
  using demo_urls demo_http by (simp add: extract_links_def demo_env_def set_add_def)

lemma demo_links_c: "extract_links demo_env url_c (ascii ''C'') = Inr [url_a, url_b]"
  using demo_urls demo_http by (simp add: extract_links_def demo_env_def set_add_def ascii_def)

lemma demo_list_a: "list_of_set demo_env [url_c, url_b] = [url_b, url_c]"
  using demo_urls by (simp add: list_of_set_def demo_env_def)

lemma demo_list_c: "list_of_set demo_env [url_a, url_b] = [url_a, url_b]"
  using demo_urls by (simp add: list_of_set_def demo_env_def)

lemma demo_body_a:
  assumes "url_a \<notin> visited c" and "total_files c < 49"
  shows "\<exists>w'. url_body demo_env ocr sig kw url_a c w =
       (Finished,
        c\<lparr>visited := insert url_a (visited c), total_files := total_files c + 1,
          next_links := next_links c @ [url_b, url_c]\<rparr>, w')
     \<and> scraped w' = scraped w @ [url_a]"
proof -
  have r: "\<And>n. render demo_env n url_a = Inr (ascii ''A'')" by (simp add: demo_env_def)
  have h: "ascii ''A'' \<noteq> []" by (simp add: ascii_def)
  from stable_page [OF demo_reliable r h demo_links_a assms] show ?thesis
    unfolding demo_list_a .
qed

lemma demo_body_c:
  assumes "url_c \<notin> visited c" and "total_files c < 49"
  shows "\<exists>w'. url_body demo_env ocr sig kw url_c c w =
       (Finished,
        c\<lparr>visited := insert url_c (visited c), total_files := total_files c + 1,
          next_links := next_links c @ [url_a, url_b]\<rparr>, w')
     \<and> scraped w' = scraped w @ [url_c]"
proof -
  have r: "\<And>n. render demo_env n url_c = Inr (ascii ''C'')"
    using demo_urls by (simp add: demo_env_def)
  have h: "ascii ''C'' \<noteq> []" by (simp add: ascii_def)
  from stable_page [OF demo_reliable r h demo_links_c assms] show ?thesis
    unfolding demo_list_c .
qed

lemma demo_body_b:
  assumes "url_b \<notin> visited c"
  shows "\<exists>w'. url_body demo_env ocr sig kw url_b c w =
       (Finished, c\<lparr>visited := insert url_b (visited c)\<rparr>, w')
     \<and> scraped w' = scraped w @ [url_b]"
proof -
  have r: "\<And>n. \<exists>e. render demo_env n url_b = Inl e"
    using demo_urls by (simp add: demo_env_def)
  from dead_page [OF demo_reliable r assms] show ?thesis .
qed

lemma demo_depth_1:
  "scraped (snd (snd (run_scraper demo_env url_a None 1 False False world0))) = [url_a]"
  "to_visit (fst (snd (run_scraper demo_env url_a None 1 False False world0))) = [url_b, url_c]"
  "fst (run_scraper demo_env url_a None 1 False False world0) = Inr 1"
proof -
  let ?c0 = "\<lparr>visited = {}, to_visit = [url_a], total_files = 0, next_links = []\<rparr>"
  have "url_a \<notin> visited ?c0" and "total_files ?c0 < 49" by simp_all
  from demo_body_a [OF this, of False False None world0] obtain w'
    where b: "url_body demo_env False False None url_a ?c0 world0 =
       (Finished, \<lparr>visited = {url_a}, to_visit = [url_a], total_files = 1,
          next_links = [url_b, url_c]\<rparr>, w')"
      and s: "scraped w' = [url_a]"
    by (auto simp: world0_def)
  have up: "[0..1 - 1] = [0::int]" by (simp add: upto.simps)
  have "run_scraper demo_env url_a None 1 False False world0 =
      (Inr 1, \<lparr>visited = {url_a}, to_visit = [url_b, url_c], total_files = 1,
          next_links = [url_b, url_c]\<rparr>, w')"
    unfolding run_scraper_def up by (simp add: emit_if_def b)
  with s show
    "scraped (snd (snd (run_scraper demo_env url_a None 1 False False world0))) = [url_a]"
    "to_visit (fst (snd (run_scraper demo_env url_a None 1 False False world0))) = [url_b, url_c]"
    "fst (run_scraper demo_env url_a None 1 False False world0) = Inr 1"
    by simp_all
qed

lemma demo_depth_2:
  "scraped (snd (snd (run_scraper demo_env url_a None 2 False False world0))) = [url_a, url_b, url_c]"
proof -
  let ?c0 = "\<lparr>visited = {}, to_visit = [url_a], total_files = 0, next_links = []\<rparr>"
  let ?c1 = "\<lparr>visited = {url_a}, to_visit = [url_a], total_files = 1, next_links = [url_b, url_c]\<rparr>"
  let ?d1 = "\<lparr>visited = {url_a}, to_visit = [url_b, url_c], total_files = 1, next_links = []\<rparr>"
  let ?d2 = "\<lparr>visited = {url_b, url_a}, to_visit = [url_b, url_c], total_files = 1, next_links = []\<rparr>"
  let ?d3 = "\<lparr>visited = {url_c, url_b, url_a}, to_visit = [url_b, url_c], total_files = 2,
     next_links = [url_a, url_b]\<rparr>"
  have "url_a \<notin> visited ?c0" "total_files ?c0 < 49" by simp_all
  from demo_body_a [OF this, of False False None world0] obtain w1
    where b1: "url_body demo_env False False None url_a ?c0 world0 = (Finished, ?c1, w1)"
      and s1: "scraped w1 = [url_a]"
    by (auto simp: world0_def)
  have "url_b \<notin> visited ?d1" using demo_urls by simp
  from demo_body_b [OF this, of False False None w1] obtain w2
    where b2: "url_body demo_env False False None url_b ?d1 w1 = (Finished, ?d2, w2)"
      and s2: "scraped w2 = [url_a, url_b]"
    using s1 by auto
  have "url_c \<notin> visited ?d2" "total_files ?d2 < 49" using demo_urls by simp_all
  from demo_body_c [OF this, of False False None w2] obtain w3
    where b3: "url_body demo_env False False None url_c ?d2 w2 = (Finished, ?d3, w3)"
      and s3: "scraped w3 = [url_a, url_b, url_c]"
    using s2 by auto
  have up: "[0..2 - 1] = [0, 1::int]" by (simp add: upto.simps)
  have "snd (snd (run_scraper demo_env url_a None 2 False False world0)) = w3"
    unfolding run_scraper_def up by (simp add: emit_if_def b1 b2 b3)
  with s3 show ?thesis by simp
qed

text \<open>
  C6. A run with \<open>depth = d\<close> goes through at most \<open>d\<close> levels, whatever the frontier
  holds after the last one: every URL that the run hands to \<open>scrape_article\<close> lies
  fewer than \<open>d\<close> links from the start URL, the links being those of the pages as
  this run rendered them; and with a \<open>log_signal\<close> the messages that open a level are
  those of the first \<open>m\<close> levels of \<open>range(d)\<close> for some \<open>m \<le> d\<close>.
  The run ends: the loops, taken one step of their iterators at a time, come to a
  result, the one of \<open>run_scraper\<close>; and that result is a count, not an exception,
  when nothing outside the renderer raises.
\<close>

theorem at_most_depth_levels:
  "(\<exists>new. scraped (snd (snd (run_scraper E start kw depth ocr sig w))) = scraped w @ new
       \<and> (\<forall>u \<in> set new. \<exists>k < nat depth.
             reached E (since w (snd (snd (run_scraper E start kw depth ocr sig w)))) start k u))
   \<and> (\<exists>m\<le>nat depth.
        filter is_level (emitted (snd (snd (run_scraper E start kw depth ocr True world0))))
          = map (\<lambda>l. CrawlLevel (l + 1) depth) (take m [0..depth - 1]))
   \<and> run_scraper_iter E start kw depth ocr sig w = Some (run_scraper E start kw depth ocr sig w)
   \<and> (reliable E \<longrightarrow> (\<exists>n. fst (run_scraper E start kw depth ocr sig w) = Inr n))"
proof -
  let ?c0 = "\<lparr>visited = {}, to_visit = [start], total_files = 0, next_links = []\<rparr>"
  obtain r c' w' where run: "run_scraper E start kw depth ocr sig w = (r, c', w')"
    by (cases "run_scraper E start kw depth ocr sig w")
  obtain r2 c2 w2 where run2: "run_scraper E start kw depth ocr True world0 = (r2, c2, w2)"
    by (cases "run_scraper E start kw depth ocr True world0")
  from level_loop_reach [OF run [unfolded run_scraper_def], of start 0] obtain rs new
    where g: "rendered w' = rendered w @ rs" and s: "scraped w' = scraped w @ new"
      and n: "\<And>R. set rs \<subseteq> set R \<Longrightarrow> \<forall>u \<in> set (to_visit ?c0). reached E R start 0 u \<Longrightarrow>
             \<forall>u \<in> set new. \<exists>k. 0 \<le> k \<and> k < 0 + length [0..depth - 1] \<and> reached E R start k u"
    by blast
  have si: "since w w' = rs" using g by (simp add: since_def)
  have "\<forall>u \<in> set (to_visit ?c0). reached E rs start 0 u" by (simp add: reached_start)
  from n [OF subset_refl this] s
  have a: "\<exists>new. scraped w' = scraped w @ new
       \<and> (\<forall>u \<in> set new. \<exists>k < nat depth. reached E (since w w') start k u)"
    unfolding si by auto
  from run_scraper_inv(3) [OF run2]
  have b: "\<exists>m\<le>nat depth. filter is_level (emitted w2)
      = map (\<lambda>l. CrawlLevel (l + 1) depth) (take m [0..depth - 1])" by simp
  have c: "run_scraper_iter E start kw depth ocr sig w = Some (run_scraper E start kw depth ocr sig w)"
    unfolding run_scraper_iter_def run_scraper_def by (rule level_iter_loop)
  have d: "reliable E \<longrightarrow> (\<exists>n. fst (run_scraper E start kw depth ocr sig w) = Inr n)"
    unfolding run_scraper_def using level_loop_reliable by blast
  from a b c d show ?thesis unfolding run run2 by simp
qed

theorem at_most_depth_levels_witness:
  "scraped (snd (snd (run_scraper demo_env url_a None 1 False False world0)))
     = scraped world0 @ [url_a]
   \<and> reached demo_env
         (since world0 (snd (snd (run_scraper demo_env url_a None 1 False False world0))))
         url_a 0 url_a
   \<and> to_visit (fst (snd (run_scraper demo_env url_a None 1 False False world0))) = [url_b, url_c]
   \<and> run_scraper_iter demo_env url_a None 1 False False world0
       = Some (run_scraper demo_env url_a None 1 False False world0)
   \<and> reliable demo_env
   \<and> fst (run_scraper demo_env url_a None 1 False False world0) = Inr 1
   \<and> scraped (snd (snd (run_scraper demo_env url_a None 2 False False world0)))
     = scraped world0 @ [url_a, url_b, url_c]
   \<and> reached demo_env
         (since world0 (snd (snd (run_scraper demo_env url_a None 2 False False world0))))
         url_a 1 url_b"
proof -
  note run = demo_depth_1
  from at_most_depth_levels [of demo_env url_a None 1 False False world0] obtain new
    where n: "scraped (snd (snd (run_scraper demo_env url_a None 1 False False world0)))
        = scraped world0 @ new"
      and r: "\<forall>u \<in> set new. \<exists>k < nat 1. reached demo_env
          (since world0 (snd (snd (run_scraper demo_env url_a None 1 False False world0)))) url_a k u"
      and i: "run_scraper_iter demo_env url_a None 1 False False world0
        = Some (run_scraper demo_env url_a None 1 False False world0)"
    by blast
  from n run have "new = [url_a]" by (simp add: world0_def)
  with r have one: "reached demo_env
      (since world0 (snd (snd (run_scraper demo_env url_a None 1 False False world0)))) url_a 0 url_a"
    by simp
  let ?R = "since world0 (snd (snd (run_scraper demo_env url_a None 2 False False world0)))"
  from at_most_depth_levels [of demo_env url_a None 2 False False world0] obtain new2
    where n2: "scraped (snd (snd (run_scraper demo_env url_a None 2 False False world0)))
        = scraped world0 @ new2"
      and r2: "\<forall>u \<in> set new2. \<exists>k < nat 2. reached demo_env ?R url_a k u"
    by blast
  from n2 demo_depth_2 have "new2 = [url_a, url_b, url_c]" by (simp add: world0_def)
  with r2 obtain k where k: "k < 2" "reached demo_env ?R url_a k url_b" by auto
  have "k \<noteq> 0"
  proof
    assume "k = 0"
    with k(2) have "reached demo_env ?R url_a 0 url_b" by simp
    then have "url_b = url_a" by cases
    with demo_urls show False by simp
  qed
  with k have two: "reached demo_env ?R url_a 1 url_b" by (cases k) simp_all
  from one two run i demo_reliable demo_depth_2 show ?thesis by (simp add: world0_def)
qed

subsection \<open>A render that fails\<close>







section \<open>Results: the frontier\<close>

lemma set_add_set: "set (set_add x s) = insert x (set s)"
  by (auto simp: set_add_def)

lemma set_add_distinct: "distinct s \<Longrightarrow> distinct (set_add x s)"
  by (simp add: set_add_def)

lemma collect_links_document:
  "collect_links E b hs links = Inr s \<Longrightarrow>
     \<exists>us. resolve_hrefs E b hs = Inr us
       \<and> set s = set links \<union> set (filter (\<lambda>url. startswith url (ascii ''http'')) us)
       \<and> (distinct links \<longrightarrow> distinct s)"
proof (induction hs arbitrary: links)
  case Nil
  then show ?case by simp
next
  case (Cons h hs)
  show ?case
  proof (cases "urljoin E b h")
    case (Inl e)
    with Cons.prems show ?thesis by simp
  next
    case (Inr u)
    let ?links = "if startswith u (ascii ''http'') then set_add u links else links"
    from Cons.prems Inr have "collect_links E b hs ?links = Inr s" by simp
    from Cons.IH [OF this] obtain us where us: "resolve_hrefs E b hs = Inr us"
      and st: "set s = set ?links \<union> set (filter (\<lambda>url. startswith url (ascii ''http'')) us)"
      and di: "distinct ?links \<longrightarrow> distinct s" by blast
    from us Inr have "resolve_hrefs E b (h # hs) = Inr (u # us)" by simp
    moreover from st
    have "set s = set links \<union> set (filter (\<lambda>url. startswith url (ascii ''http'')) (u # us))"
      by (auto simp: set_add_set)
    moreover from di have "distinct links \<longrightarrow> distinct s"
      by (simp add: set_add_distinct)
    ultimately show ?thesis by blast
  qed
qed

lemma extract_links_document:
  "extract_links E u h = Inr s \<Longrightarrow>
     distinct s \<and> (\<exists>ds. document_links E u h = Inr ds \<and> set s = set ds)"
  unfolding extract_links_def document_links_def
  by (drule collect_links_document) auto

lemma group_nothing: "\<not> truthy html \<Longrightarrow> group E (url, html) = []"
  by (cases html) (simp_all add: group_def truthy_def)

lemma url_body_frontier:
  assumes b: "url_body E ocr sig kw url c w = (Finished, c1, w1)"
  shows "if url \<in> visited c then c1 = c \<and> w1 = w
     else visited c1 = insert url (visited c) \<and> scraped w1 = scraped w @ [url]
       \<and> (\<exists>a b. rendered w1 = rendered w @ [(url, a), (url, b)]
             \<and> next_links c1 = next_links c @ group E (url, b))"
proof (cases "url \<in> visited c")
  case True
  with b show ?thesis by (simp add: url_body_visited)
next
  case False
  obtain r1 v1 where s: "scrape_article E url kw ocr sig w = (r1, v1)"
    by (cases "scrape_article E url kw ocr sig w")
  note t1 = scrape_article_traces [OF s]
  show ?thesis
  proof (cases r1)
    case (Inl e)
    from url_body_raise [OF False s [unfolded Inl]] b show ?thesis by simp
  next
    case (Inr saved)
    with t1 obtain a where ra: "rendered v1 = rendered w @ [(url, a)]"
      and sc: "scraped v1 = scraped w @ [url]" by auto
    obtain html v2 where f: "fetch_page_playwright E url sig v1 = (html, v2)"
      by (cases "fetch_page_playwright E url sig v1")
    from fetch_traces [OF f] ra sc
    have rb: "rendered v2 = rendered w @ [(url, a), (url, html)]"
      and sc2: "scraped v2 = scraped w @ [url]" by simp_all
    define c2 where "c2 = (if truthy saved then c\<lparr>visited := insert url (visited c), total_files := total_files c + 1\<rparr>
             else c\<lparr>visited := insert url (visited c)\<rparr>)"
    have v2': "visited c2 = insert url (visited c)" and n2: "next_links c2 = next_links c"
      by (simp_all add: c2_def)
    note st = url_body_step [OF False s [unfolded Inr] f c2_def]
    show ?thesis
    proof (cases "truthy html")
      case nt: False
      with st b have "c1 = c2" "w1 = v2" by simp_all
      with False v2' n2 rb sc2 group_nothing [OF nt, of E url] show ?thesis by auto
    next
      case True
      then obtain h where h: "html = Some h" "h \<noteq> []"
        by (cases html) (simp_all add: truthy_def)
      show ?thesis
      proof (cases "extract_links E url h")
        case (Inl e)
        with st True h b show ?thesis by simp
      next
        case x: (Inr links)
        with st True h b
        have "c1 = c2\<lparr>next_links := next_links c2 @ list_of_set E links\<rparr>" "w1 = v2"
          by (auto split: if_splits)
        moreover from x h have "group E (url, html) = list_of_set E links"
          by (simp add: group_def)
        ultimately show ?thesis using False v2' n2 rb sc2 by auto
      qed
    qed
  qed
qed

lemma seconds_pair: "seconds (x # y # zs) = y # seconds zs"
  by simp

text \<open>
  A level that runs to its end has looked at every URL of its frontier that was not
  visited, in the order of the frontier, has rendered each of them twice, and has
  added to the frontier, one after the other, what the second renders gave.
\<close>

lemma url_loop_frontier:
  "url_loop E ocr sig kw us c w = (Finished, c', w') \<Longrightarrow>
     visited c' = visited c \<union> set us
     \<and> scraped w' = scraped w @ fresh us (visited c)
     \<and> (\<exists>rs. rendered w' = rendered w @ rs
           \<and> map fst rs = concat (map (\<lambda>u. [u, u]) (fresh us (visited c)))
           \<and> next_links c' = next_links c @ concat (map (group E) (seconds rs)))"
proof (induction us arbitrary: c w)
  case Nil
  then show ?case by simp
next
  case (Cons url rest)
  obtain r1 c1 w1 where b: "url_body E ocr sig kw url c w = (r1, c1, w1)"
    by (cases "url_body E ocr sig kw url c w")
  have fin: "r1 = Finished"
  proof (rule ccontr)
    assume "r1 \<noteq> Finished"
    from url_loop_stop [OF b this, of rest] Cons.prems this show False by simp
  qed
  note b' = b [unfolded fin]
  from url_loop_next [OF b', of rest] Cons.prems
  have l: "url_loop E ocr sig kw rest c1 w1 = (Finished, c', w')" by simp
  from Cons.IH [OF l] obtain rs where v: "visited c' = visited c1 \<union> set rest"
    and sc: "scraped w' = scraped w1 @ fresh rest (visited c1)"
    and re: "rendered w' = rendered w1 @ rs"
    and mf: "map fst rs = concat (map (\<lambda>u. [u, u]) (fresh rest (visited c1)))"
    and nl: "next_links c' = next_links c1 @ concat (map (group E) (seconds rs))"
    by blast
  note bf = url_body_frontier [OF b']
  show ?case
  proof (cases "url \<in> visited c")
    case True
    with bf have "c1 = c" "w1 = w" by simp_all
    with True v sc re mf nl show ?thesis by auto
  next
    case False
    with bf obtain a b where v1: "visited c1 = insert url (visited c)"
      and s1: "scraped w1 = scraped w @ [url]"
      and r1: "rendered w1 = rendered w @ [(url, a), (url, b)]"
      and n1: "next_links c1 = next_links c @ group E (url, b)" by auto
    let ?rs = "(url, a) # (url, b) # rs"
    have "rendered w' = rendered w @ ?rs" using re r1 by simp
    moreover have "map fst ?rs = concat (map (\<lambda>u. [u, u]) (fresh (url # rest) (visited c)))"
      using mf v1 False by simp
    moreover have "next_links c' = next_links c @ concat (map (group E) (seconds ?rs))"
      using nl n1 by simp
    moreover have "visited c' = visited c \<union> set (url # rest)" using v v1 by auto
    moreover have "scraped w' = scraped w @ fresh (url # rest) (visited c)"
      using sc s1 v1 False by simp
    ultimately show ?thesis by blast
  qed
qed

lemma demo_level_run:
  "\<exists>w3. demo_level =
     (Finished,
      \<lparr>visited = {url_a, url_b, url_c}, to_visit = [url_c, url_b, url_a], total_files = 2,
         next_links = [url_a, url_b, url_b, url_c]\<rparr>, w3)"
proof -
  let ?c0 = "\<lparr>visited = {}, to_visit = [url_c, url_b, url_a], total_files = 0, next_links = []\<rparr>"
  let ?c1 = "\<lparr>visited = {url_c}, to_visit = [url_c, url_b, url_a], total_files = 1,
     next_links = [url_a, url_b]\<rparr>"
  let ?c2 = "\<lparr>visited = {url_b, url_c}, to_visit = [url_c, url_b, url_a], total_files = 1,
     next_links = [url_a, url_b]\<rparr>"
  let ?c3 = "\<lparr>visited = {url_a, url_b, url_c}, to_visit = [url_c, url_b, url_a], total_files = 2,
     next_links = [url_a, url_b, url_b, url_c]\<rparr>"
  have "url_c \<notin> visited ?c0" "total_files ?c0 < 49" by simp_all
  from demo_body_c [OF this, of False False None world0] obtain w1
    where b1: "url_body demo_env False False None url_c ?c0 world0 = (Finished, ?c1, w1)"
    by auto
  have "url_b \<notin> visited ?c1" using demo_urls by simp
  from demo_body_b [OF this, of False False None w1] obtain w2
    where b2: "url_body demo_env False False None url_b ?c1 w1 = (Finished, ?c2, w2)"
    by auto
  have "url_a \<notin> visited ?c2" "total_files ?c2 < 49" using demo_urls by simp_all
  from demo_body_a [OF this, of False False None w2] obtain w3
    where b3: "url_body demo_env False False None url_a ?c2 w2 = (Finished, ?c3, w3)"
    by auto
  have "demo_level = (Finished, ?c3, w3)"
    unfolding demo_level_def demo_frontier_def
    by (simp add: emit_if_def b1 b2 b3)
  then show ?thesis by blast
qed

text \<open>
  C3. A level that runs to its end renders every URL of its frontier that was not
  visited twice, in the order of the frontier, and the list it hands to the next level
  is the concatenation, in that order, of what the second renders of these URLs give:
  nothing when there is no markup, else \<open>list(links)\<close> for the set of the links of the
  page. Such a group holds every link of the page once; its order is the one in which
  the hash table is walked, not the one of the anchors. The next level iterates
  exactly this list.
\<close>

theorem frontier_is_concatenation_of_link_sets:
  assumes "url_loop E ocr sig kw (to_visit c) (c\<lparr>next_links := []\<rparr>)
      (emit_if sig (CrawlLevel (level + 1) depth) w) = (Finished, c2, w2)"
  shows "map fst (since w w2) = concat (map (\<lambda>u. [u, u]) (fresh (to_visit c) (visited c)))
     \<and> next_links c2 = concat (map (group E) (seconds (since w w2)))
     \<and> scraped w2 = scraped w @ fresh (to_visit c) (visited c)
     \<and> level_loop E ocr sig kw depth (level # levels) c w =
         level_loop E ocr sig kw depth levels (c2\<lparr>to_visit := next_links c2\<rparr>) w2
     \<and> (\<forall>u h links. extract_links E u h = Inr links \<longrightarrow>
          distinct (list_of_set E links)
          \<and> (\<exists>ds. document_links E u h = Inr ds \<and> set (list_of_set E links) = set ds))"
proof -
  let ?w1 = "emit_if sig (CrawlLevel (level + 1) depth) w"
  have e: "rendered ?w1 = rendered w" "scraped ?w1 = scraped w" by (simp_all add: emit_if_def)
  from url_loop_frontier [OF assms] obtain rs
    where s: "scraped w2 = scraped ?w1 @ fresh (to_visit c) (visited (c\<lparr>next_links := []\<rparr>))"
      and r: "rendered w2 = rendered ?w1 @ rs"
      and m: "map fst rs = concat (map (\<lambda>u. [u, u]) (fresh (to_visit c) (visited (c\<lparr>next_links := []\<rparr>))))"
      and n: "next_links c2 = next_links (c\<lparr>next_links := []\<rparr>) @ concat (map (group E) (seconds rs))"
    by blast
  have si: "since w w2 = rs" using r e by (simp add: since_def)
  have h: "level_loop E ocr sig kw depth (level # levels) c w =
         level_loop E ocr sig kw depth levels (c2\<lparr>to_visit := next_links c2\<rparr>) w2"
    using assms by (simp add: Let_def)
  have x: "distinct (list_of_set E links)
          \<and> (\<exists>ds. document_links E u h = Inr ds \<and> set (list_of_set E links) = set ds)"
    if "extract_links E u h = Inr links" for u h links
    using extract_links_document [OF that] by (simp add: list_of_set_set list_of_set_distinct)
  from s m n e h x show ?thesis unfolding si by simp
qed

theorem frontier_is_concatenation_of_link_sets_witness:
  "fst demo_level = Finished
   \<and> map fst (since world0 (snd (snd demo_level))) = [url_c, url_c, url_b, url_b, url_a, url_a]
   \<and> next_links (fst (snd demo_level))
       = concat (map (group demo_env) (seconds (since world0 (snd (snd demo_level)))))
   \<and> next_links (fst (snd demo_level)) = [url_a, url_b, url_b, url_c]
   \<and> scraped (snd (snd demo_level)) = [url_c, url_b, url_a]
   \<and> extract_links demo_env url_a (ascii ''A'') = Inr [url_c, url_b]
   \<and> distinct (list_of_set demo_env [url_c, url_b])
   \<and> scraped (snd (snd (run_scraper demo_env url_a None 2 False False world0)))
       = [url_a, url_b, url_c]"
proof -
  from demo_level_run obtain w3 where l: "demo_level =
     (Finished,
      \<lparr>visited = {url_a, url_b, url_c}, to_visit = [url_c, url_b, url_a], total_files = 2,
         next_links = [url_a, url_b, url_b, url_c]\<rparr>, w3)" by blast
  note T = frontier_is_concatenation_of_link_sets [OF l [unfolded demo_level_def], where levels = "[]"]
  from T have a: "map fst (since world0 w3)
      = concat (map (\<lambda>u. [u, u]) (fresh (to_visit demo_frontier) (visited demo_frontier)))"
    by blast
  have a': "map fst (since world0 w3) = [url_c, url_c, url_b, url_b, url_a, url_a]"
    unfolding a using demo_urls by (simp add: demo_frontier_def)
  from T have b: "next_links \<lparr>visited = {url_a, url_b, url_c}, to_visit = [url_c, url_b, url_a],
      total_files = 2, next_links = [url_a, url_b, url_b, url_c]\<rparr>
      = concat (map (group demo_env) (seconds (since world0 w3)))"
    by blast
  from T have c: "scraped w3 = scraped world0 @ fresh (to_visit demo_frontier) (visited demo_frontier)"
    by blast
  have c': "scraped w3 = [url_c, url_b, url_a]"
    unfolding c using demo_urls by (simp add: demo_frontier_def world0_def)
  from T demo_links_a have d: "distinct (list_of_set demo_env [url_c, url_b])"
    by blast
  from a' b c' d demo_links_a demo_depth_2 demo_urls show ?thesis
    unfolding l by simp
qed

lemma demo_document_links:
  "document_links demo_env url_a (ascii ''A'') = Inr [url_c, url_b]"
  using demo_http by (simp add: document_links_def demo_env_def)

text \<open>
  C3 as the spec states it: the links of a URL enter the frontier in the order of the
  anchors of its page. The page of \<open>http://a\<close> has the anchors \<open>http://c\<close> and
  \<open>http://b\<close>, two different links in that order; the frontier after the first level
  is \<open>http://b\<close>, \<open>http://c\<close>.
\<close>

theorem frontier_not_in_document_order:
  "document_links demo_env url_a (ascii ''A'') = Inr [url_c, url_b]
   \<and> next_links (fst (snd (url_loop demo_env False True None [url_a] (crawl0 url_a) world0)))
       = [url_b, url_c]
   \<and> url_b \<noteq> url_c"
proof -
  have "url_a \<notin> visited (crawl0 url_a)" "total_files (crawl0 url_a) < 49"
    by (simp_all add: crawl0_def)
  from demo_body_a [OF this, of False True None world0] obtain w1
    where "url_body demo_env False True None url_a (crawl0 url_a) world0 =
       (Finished,
        (crawl0 url_a)\<lparr>visited := insert url_a (visited (crawl0 url_a)),
          total_files := total_files (crawl0 url_a) + 1,
          next_links := next_links (crawl0 url_a) @ [url_b, url_c]\<rparr>, w1)"
    by blast
  then have "next_links (fst (snd (url_loop demo_env False True None [url_a] (crawl0 url_a) world0)))
       = [url_b, url_c]"
    by (simp add: crawl0_def)
  with demo_document_links demo_urls(3) show ?thesis by simp
qed

section \<open>Results: the safety limit\<close>

text \<open>
  A stretch of the frontier on which every first render succeeds and every second one
  fails: each URL is saved and counted, and the limit is never looked at.
\<close>

lemma limit_not_checked:
  assumes rel: "reliable E"
    and ok: "\<And>n u. u \<in> S \<Longrightarrow> n mod 5 = 1 \<Longrightarrow> \<exists>h. render E n u = Inr h \<and> h \<noteq> []"
    and ko: "\<And>n u. u \<in> S \<Longrightarrow> n mod 5 = 0 \<Longrightarrow> \<exists>e. render E n u = Inl e"
  shows "set us \<subseteq> S \<Longrightarrow> distinct us \<Longrightarrow> set us \<inter> visited c = {} \<Longrightarrow> clock w mod 5 = 1 \<Longrightarrow>
     dir_exists w \<Longrightarrow>
     \<exists>c' w'. url_loop E False sig kw us c w = (Finished, c', w')
        \<and> total_files c' = total_files c + int (length us)"
proof (induction us arbitrary: c w)
  case Nil
  then show ?case by simp
next
  case (Cons url rest)
  from Cons.prems have inS: "url \<in> S" and nv: "url \<notin> visited c" by auto
  let ?wd = "w\<lparr>scraped := scraped w @ [url]\<rparr>"
  have d: "ensure_dir E ?wd = (None, ?wd)"
    using Cons.prems(5) by (simp add: ensure_dir_def)
  from ok [OF inS, of "clock ?wd"] Cons.prems(4) obtain h
    where rh: "render E (clock ?wd) url = Inr h" and hn: "h \<noteq> []" by auto
  from scrape_article_saved [OF rel d rh hn, of kw False sig] obtain p w1
    where s: "scrape_article E url kw False sig w = (Inr (Some p), w1)"
      and p: "p \<noteq> []" and k1: "clock w1 = clock ?wd + 4" and d1: "dir_exists w1 = dir_exists ?wd"
    by auto
  have m0: "clock w1 mod 5 = 0" using k1 Cons.prems(4) by simp presburger
  from ko [OF inS this] obtain e where re: "render E (clock w1) url = Inl e" by blast
  obtain w2 where f2: "fetch_page_playwright E url sig w1 = (None, w2)"
    using re by (simp add: fetch_page_playwright_def)
  have k2: "clock w2 mod 5 = 1" using fetch_traces [OF f2] m0 by (simp add: mod_Suc)
  have d2: "dir_exists w2" using fetch_traces [OF f2] d1 Cons.prems(5) by simp
  let ?c2 = "c\<lparr>visited := insert url (visited c), total_files := total_files c + 1\<rparr>"
  have tp: "truthy (Some p)" and nt: "\<not> truthy None" using p by (simp_all add: truthy_def)
  from url_body_step [OF nv s f2 refl] tp nt
  have "url_body E False sig kw url c w = (Finished, ?c2, w2)" by simp
  note st = url_loop_next [OF this, of rest]
  from Cons.prems have "set rest \<subseteq> S" "distinct rest" "set rest \<inter> visited ?c2 = {}"
    by auto
  from Cons.IH [OF this k2 d2] obtain c' w'
    where "url_loop E False sig kw rest ?c2 w2 = (Finished, c', w')"
      and "total_files c' = total_files ?c2 + int (length rest)"
    by blast
  with st show ?case by simp
qed

lemma leaf_urls_facts:
  "length leaf_urls = 50" "distinct leaf_urls" "hub_url \<notin> set leaf_urls"
  "filter (\<lambda>url. startswith url (ascii ''http'')) leaf_urls = leaf_urls"
proof -
  show "length leaf_urls = 50" by (simp add: leaf_urls_def)
  have "inj (\<lambda>k::nat. ascii ''http://h/'' @ [k])" by (simp add: inj_def)
  then have "inj_on (\<lambda>k::nat. ascii ''http://h/'' @ [k]) (set ([97..<123] @ [65..<89]))"
    by (rule inj_on_subset) simp
  moreover have "distinct ([97..<123] @ [65..<89] :: nat list)" by simp
  ultimately show "distinct leaf_urls"
    unfolding leaf_urls_def by (simp only: distinct_map simp_thms)
  show "hub_url \<notin> set leaf_urls"
    by (auto simp: leaf_urls_def hub_url_def)
  have "startswith (ascii ''http://h/'' @ [k]) (ascii ''http'')" for k :: nat
    by (simp add: startswith_def ascii_def)
  then show "filter (\<lambda>url. startswith url (ascii ''http'')) leaf_urls = leaf_urls"
    by (simp add: leaf_urls_def filter_map o_def)
qed

lemma flaky_reliable: "reliable flaky_env"
  by (simp add: reliable_def flaky_env_def)

lemma resolve_hrefs_plain:
  "(\<And>b h. urljoin E b h = Inr h) \<Longrightarrow> resolve_hrefs E base hs = Inr hs"
  by (induction hs) simp_all

lemma flaky_hub_links:
  "\<exists>s. extract_links flaky_env hub_url (ascii ''hub'') = Inr s
     \<and> set s = set leaf_urls \<and> distinct s \<and> length s = 50"
proof -
  from extract_links_reliable [OF flaky_reliable] obtain s
    where x: "extract_links flaky_env hub_url (ascii ''hub'') = Inr s" by blast
  have "resolve_hrefs flaky_env hub_url leaf_urls = Inr leaf_urls"
    by (rule resolve_hrefs_plain) (simp add: flaky_env_def)
  then have "document_links flaky_env hub_url (ascii ''hub'') = Inr leaf_urls"
    using leaf_urls_facts(4) by (simp add: document_links_def flaky_env_def)
  with extract_links_document [OF x] have di: "distinct s" and st: "set s = set leaf_urls"
    by auto
  from di st leaf_urls_facts(1,2) have "length s = 50"
    by (metis distinct_card)
  with x di st show ?thesis by blast
qed

lemma flaky_hub_level:
  assumes k: "clock w = 0" and nd: "\<not> dir_exists w"
  shows "\<exists>c' w'. url_loop flaky_env False True None [hub_url] (crawl0 hub_url) w = (Finished, c', w')
     \<and> set (next_links c') = set leaf_urls \<and> distinct (next_links c') \<and> length (next_links c') = 50
     \<and> total_files c' = 1 \<and> visited c' = {hub_url}
     \<and> clock w' mod 5 = 1 \<and> dir_exists w'"
proof -
  let ?wd = "(tick (w\<lparr>scraped := scraped w @ [hub_url]\<rparr>))\<lparr>dir_exists := True\<rparr>"
  have d: "ensure_dir flaky_env (w\<lparr>scraped := scraped w @ [hub_url]\<rparr>) = (None, ?wd)"
    using nd by (simp add: ensure_dir_def flaky_env_def)
  have rh: "render flaky_env n hub_url = Inr (ascii ''hub'')" for n
    by (simp add: flaky_env_def)
  have hn: "ascii ''hub'' \<noteq> []" by (simp add: ascii_def)
  from scrape_article_saved [OF flaky_reliable d rh hn, of None False True] obtain p w1
    where s: "scrape_article flaky_env hub_url None False True w = (Inr (Some p), w1)"
      and p: "p \<noteq> []" and k1: "clock w1 = clock ?wd + 4" and d1: "dir_exists w1 = dir_exists ?wd"
    by auto
  have k1': "clock w1 = 5" and d1': "dir_exists w1" using k1 d1 k by (simp_all add: tick_def)
  obtain w2 where f2: "fetch_page_playwright flaky_env hub_url True w1 = (Some (ascii ''hub''), w2)"
    using rh by (simp add: fetch_page_playwright_def)
  from fetch_traces [OF f2] k1' d1' have k2: "clock w2 mod 5 = 1" and d2: "dir_exists w2"
    by simp_all
  from flaky_hub_links obtain links
    where x: "extract_links flaky_env hub_url (ascii ''hub'') = Inr links"
      and l: "set links = set leaf_urls" "distinct links" "length links = 50" by blast
  have nv: "hub_url \<notin> visited (crawl0 hub_url)" by (simp add: crawl0_def)
  have tp: "truthy (Some p)" "truthy (Some (ascii ''hub''))" using p hn by (simp_all add: truthy_def)
  let ?c3 = "(crawl0 hub_url)\<lparr>visited := insert hub_url (visited (crawl0 hub_url)),
      total_files := total_files (crawl0 hub_url) + 1,
      next_links := next_links (crawl0 hub_url) @ list_of_set flaky_env links\<rparr>"
  from url_body_step [OF nv s f2 refl] tp x
  have "url_body flaky_env False True None hub_url (crawl0 hub_url) w = (Finished, ?c3, w2)"
    by (simp add: crawl0_def)
  from url_loop_next [OF this, of "[]"]
  have "url_loop flaky_env False True None [hub_url] (crawl0 hub_url) w = (Finished, ?c3, w2)"
    by simp
  moreover have "set (next_links ?c3) = set leaf_urls" "distinct (next_links ?c3)"
    "length (next_links ?c3) = 50" "total_files ?c3 = 1" "visited ?c3 = {hub_url}"
    using l by (simp_all add: crawl0_def list_of_set_set list_of_set_distinct list_of_set_def)
  ultimately show ?thesis using k2 d2 by blast
qed

text \<open>
  C1. The value returned by \<open>run_scraper\<close> is meant to stay at or below 50. The check
  sits after the \<open>continue\<close> that leaves the iteration when the render for the links
  fails, so a URL that was saved and whose second render fails is counted and the
  limit is not looked at. On the flaky site a crawl of depth 2 saves the hub and all
  fifty leaves: it writes 51 files and returns 51.
\<close>

theorem flaky_crawl_returns_51:
  "fst (run_scraper flaky_env hub_url None 2 False True world0) = Inr 51
   \<and> length (written (snd (snd (run_scraper flaky_env hub_url None 2 False True world0)))) = 51"
proof -
  let ?w1 = "emit_if True (CrawlLevel 1 2) world0"
  have k0: "clock ?w1 = 0" "\<not> dir_exists ?w1" by (simp_all add: emit_if_def world0_def)
  have c0: "(crawl0 hub_url)\<lparr>next_links := []\<rparr> = crawl0 hub_url"
    and tv: "to_visit (crawl0 hub_url) = [hub_url]" by (simp_all add: crawl0_def)
  from flaky_hub_level [OF k0] obtain c1 w2
    where l1: "url_loop flaky_env False True None [hub_url] (crawl0 hub_url) ?w1 = (Finished, c1, w2)"
      and n1: "set (next_links c1) = set leaf_urls" "distinct (next_links c1)"
        "length (next_links c1) = 50"
      and t1: "total_files c1 = 1"
      and v1: "visited c1 = {hub_url}" and k2: "clock w2 mod 5 = 1" and d2: "dir_exists w2"
    by blast
  let ?c2 = "c1\<lparr>to_visit := next_links c1, next_links := []\<rparr>"
  let ?w3 = "emit_if True (CrawlLevel 2 2) w2"
  have k3: "clock ?w3 mod 5 = 1" "dir_exists ?w3" using k2 d2 by (simp_all add: emit_if_def)
  have ok: "\<exists>h. render flaky_env n u = Inr h \<and> h \<noteq> []" if "u \<in> set leaf_urls" "n mod 5 = 1" for n u
    using that by (simp add: flaky_env_def ascii_def)
  have ko: "\<exists>e. render flaky_env n u = Inl e" if "u \<in> set leaf_urls" "n mod 5 = 0" for n u
  proof -
    from that(1) leaf_urls_facts(3) have "u \<noteq> hub_url" by blast
    with that(2) show ?thesis by (simp add: flaky_env_def)
  qed
  have sub: "set (next_links c1) \<subseteq> set leaf_urls" using n1(1) by simp
  have dj: "set (next_links c1) \<inter> visited ?c2 = {}"
    using leaf_urls_facts(3) v1 n1(1) by simp
  from limit_not_checked [of flaky_env "set leaf_urls" "next_links c1" ?c2 ?w3 True None,
      OF flaky_reliable ok ko sub n1(2) dj k3]
  obtain c3 w4
    where l2: "url_loop flaky_env False True None (next_links c1) ?c2 ?w3 = (Finished, c3, w4)"
      and t3: "total_files c3 = total_files ?c2 + int (length (next_links c1))" by blast
  have t3': "total_files c3 = 51" using t3 t1 n1(3) by simp
  have r: "[0..2 - 1] = [0, 1::int]" by (simp add: upto.simps)
  have run: "run_scraper flaky_env hub_url None 2 False True world0 =
      (Inr (total_files c3), c3\<lparr>to_visit := next_links c3\<rparr>, w4)"
    unfolding run_scraper_def r crawl0_def [symmetric]
    by (simp add: Let_def c0 tv l1 l2 del: url_loop.simps)
  from run_scraper_inv(1) [OF run] have "total_files c3 = int (length (written w4))"
    by (simp add: traces_ok_def)
  with run t3' show ?thesis by simp
qed

end
